theory Spec2Isabelle
  imports Main "HOL-Library.Word" "HOL-Library.Multiset"
begin

section \<open>Errors, options and connections\<close>

text \<open>
  The two package-level error values of the repository, and the errors that come from the
  Thrift transport (dial and socket-close failures), which are opaque to the pool and are
  told apart by a number.
\<close>

datatype error = ErrClosed | ErrPoolTimeout | ExtError nat

text \<open>
  \<^verbatim>\<open>type Options struct\<close>. Durations are \<^verbatim>\<open>time.Duration\<close> values, that is
  nanosecond counts; \<^verbatim>\<open>PoolSize\<close> and \<^verbatim>\<open>MinIdleConns\<close> are Go \<^verbatim>\<open>int\<close>s.
\<close>

record Options =
  Addr :: string
  MaxRetries :: int
  DialTimeout :: int
  ReadTimeout :: int
  WriteTimeout :: int
  IdleTimeout :: int
  PoolTimeout :: int
  IdleCheckFrequency :: int
  PoolSize :: int
  MinIdleConns :: int

definition Second :: int where
  "Second = 1000000000"

definition Minute :: int where
  "Minute = 60 * Second"

text \<open>
  Go's \<^verbatim>\<open>int\<close> and \<^verbatim>\<open>time.Duration\<close> have 64 bits here, and their arithmetic wraps
  around: \<open>wrap64\<close> is the value a sum or product has as an \<^verbatim>\<open>int64\<close>.
\<close>

definition wrap64 :: "int \<Rightarrow> int" where
  "wrap64 x = (x + 2 ^ 63) mod 2 ^ 64 - 2 ^ 63"

text \<open>
  \<^verbatim>\<open>func (opt *Options) init()\<close>, with \<^verbatim>\<open>runtime.NumCPU()\<close> as a parameter.
  The two \<^verbatim>\<open>switch\<close> statements have no default case: any other value is kept.
  The product \<^verbatim>\<open>10 * runtime.NumCPU()\<close> and the sum \<^verbatim>\<open>opt.ReadTimeout + time.Second\<close>
  are computed on 64 bits.
\<close>

definition Options_init :: "int \<Rightarrow> Options \<Rightarrow> Options" where
  "Options_init numCPU o0 =
    (let o1 = (if Addr o0 = [] then o0\<lparr>Addr := ''localhost:9090''\<rparr> else o0);
         o2 = (if PoolSize o1 = 0 then o1\<lparr>PoolSize := wrap64 (10 * numCPU)\<rparr> else o1);
         o3 = (if DialTimeout o2 = 0 then o2\<lparr>DialTimeout := 5 * Second\<rparr> else o2);
         o4 = (if ReadTimeout o3 = - 1 then o3\<lparr>ReadTimeout := 0\<rparr>
               else if ReadTimeout o3 = 0 then o3\<lparr>ReadTimeout := 3 * Second\<rparr> else o3);
         o5 = (if WriteTimeout o4 = - 1 then o4\<lparr>WriteTimeout := 0\<rparr>
               else if WriteTimeout o4 = 0 then o4\<lparr>WriteTimeout := ReadTimeout o4\<rparr> else o4);
         o6 = (if PoolTimeout o5 = 0 then o5\<lparr>PoolTimeout := wrap64 (ReadTimeout o5 + Second)\<rparr> else o5);
         o7 = (if IdleTimeout o6 = 0 then o6\<lparr>IdleTimeout := 5 * Minute\<rparr> else o6)
     in (if IdleCheckFrequency o7 = 0 then o7\<lparr>IdleCheckFrequency := Minute\<rparr> else o7))"

text \<open>
  \<^verbatim>\<open>type ThriftConn struct\<close> (the variant with \<^verbatim>\<open>pooled\<close>, \<^verbatim>\<open>createTime\<close> and an
  atomic \<^verbatim>\<open>usedTime\<close>, which is the one \<^verbatim>\<open>pool.go\<close> compiles against). Times are
  nanosecond readings of the clock. The Thrift socket is external: all the pool ever does
  with it is \<^verbatim>\<open>socket.Close()\<close>, so the field holds the error (or nil) that this call
  will return.
\<close>

record ThriftConn =
  Endpoint :: string
  closed :: bool
  socket :: "error option"
  usedTime :: int
  createTime :: int
  pooled :: bool

text \<open>\<^verbatim>\<open>type Stats struct\<close>: six \<^verbatim>\<open>uint32\<close> counters.\<close>

record Stats =
  Hits :: "32 word"
  Misses :: "32 word"
  Timeouts :: "32 word"
  TotalConns :: "32 word"
  IdleConns :: "32 word"
  StaleConns :: "32 word"

section \<open>The pool and its run-time environment\<close>

text \<open>
  Connections are heap objects that the pool, its goroutines and the callers share through
  pointers: a pointer is an address, \<open>nil\<close> is address 0, which is never allocated.
\<close>

type_synonym addr = nat

abbreviation nil :: addr where
  "nil \<equiv> 0"

text \<open>
  \<^verbatim>\<open>type ThriftConnPool struct\<close>. The two mutexes have no field: every function below is
  one atomic transition. The channel \<^verbatim>\<open>queue\<close> carries empty structs, so it is the
  number of buffered tokens; its capacity is \<^verbatim>\<open>opt.PoolSize\<close>. \<^verbatim>\<open>_closed\<close> is
  \<open>closed_flag\<close>.
\<close>

record ThriftConnPool =
  opt :: Options
  dialErrorsNum :: "32 word"
  lastDialError :: "error option"
  queue :: nat
  conns :: "addr list"
  idleConns :: "addr list"
  poolSize :: int
  idleConnsLen :: int
  stats :: Stats
  closed_flag :: "32 word"

text \<open>
  The pool together with what surrounds it at run time: the heap of connections and the
  next free address, the clock read by \<^verbatim>\<open>time.Now()\<close>, the goroutines started by the
  \<^verbatim>\<open>go\<close> statements and not yet finished, and the connections that callers currently
  hold (returned by \<^verbatim>\<open>Get\<close>, not yet passed to \<^verbatim>\<open>Put\<close> or \<^verbatim>\<open>Remove\<close>). No function
  of the pool reads or writes \<open>held\<close>.
\<close>

record world = ThriftConnPool +
  heap :: "addr \<Rightarrow> ThriftConn option"
  nextAddr :: addr
  clock :: int
  addIdle_running :: nat
  tryDial_running :: nat
  reaper_running :: nat
  held :: "addr list"

text \<open>
  A call returns, panics (nil dereference, negative channel size), or blocks on the channel
  with nobody else to wake it up.
\<close>

datatype 'a outcome = Return 'a | Panics | Blocks

text \<open>The outcome of one dial (\<^verbatim>\<open>thrift.NewTSocket...\<close> and \<^verbatim>\<open>socket.Open\<close>): an error, or
  a socket, given by what its \<^verbatim>\<open>Close\<close> will return.\<close>

datatype dial = DialError nat | DialOK "error option"

subsection \<open>Connections\<close>

text \<open>\<^verbatim>\<open>time.Time.Sub\<close>: the difference, saturated to the range of \<^verbatim>\<open>int64\<close>.\<close>

definition maxDuration :: int where
  "maxDuration = 2 ^ 63 - 1"

definition minDuration :: int where
  "minDuration = - (2 ^ 63)"

definition time_Sub :: "int \<Rightarrow> int \<Rightarrow> int" where
  "time_Sub t u = (if t - u > maxDuration then maxDuration
                   else if t - u < minDuration then minDuration else t - u)"

text \<open>\<^verbatim>\<open>func (t *ThriftConn) UpdateUsedTime() int64\<close>\<close>

definition UpdateUsedTime :: "world \<Rightarrow> addr \<Rightarrow> world outcome" where
  "UpdateUsedTime w t =
    (case heap w t of
       None \<Rightarrow> Panics
     | Some c \<Rightarrow> Return (w\<lparr>heap := (heap w)(t \<mapsto> c\<lparr>usedTime := clock w\<rparr>)\<rparr>))"

text \<open>\<^verbatim>\<open>func (t *ThriftConn) Close() error\<close>\<close>

definition conn_Close :: "world \<Rightarrow> addr \<Rightarrow> (error option \<times> world) outcome" where
  "conn_Close w t =
    (case heap w t of
       None \<Rightarrow> Panics
     | Some c \<Rightarrow>
         if closed c then Return (None, w)
         else Return (socket c, w\<lparr>heap := (heap w)(t \<mapsto> c\<lparr>closed := True\<rparr>)\<rparr>))"

text \<open>
  \<^verbatim>\<open>func NewThriftConn(endpoint string, dialTimeout time.Duration)\<close>. The timeout only
  selects the Thrift constructor; whether the dial succeeds is the environment's choice.
  A new connection is allocated at the next free address, open, with both times set to
  now and \<^verbatim>\<open>pooled\<close> at its zero value.
\<close>

definition NewThriftConn :: "string \<Rightarrow> int \<Rightarrow> dial \<Rightarrow> world \<Rightarrow> addr \<times> error option \<times> world" where
  "NewThriftConn endpoint dialTimeout d w =
    (case d of
       DialError k \<Rightarrow> (nil, Some (ExtError k), w)
     | DialOK ce \<Rightarrow>
         (nextAddr w, None,
          w\<lparr>heap := (heap w)(nextAddr w \<mapsto>
                \<lparr>Endpoint = endpoint, closed = False, socket = ce,
                 usedTime = clock w, createTime = clock w, pooled = False\<rparr>),
            nextAddr := Suc (nextAddr w)\<rparr>))"

subsection \<open>Staleness\<close>

text \<open>\<^verbatim>\<open>func (tp *ThriftConnPool) isStaleConn(cn *ThriftConn) bool\<close>. The connection is
  dereferenced only when the timeout is positive.\<close>

definition isStaleConn :: "world \<Rightarrow> addr \<Rightarrow> bool outcome" where
  "isStaleConn tp cn =
    (if IdleTimeout (opt tp) = 0 then Return False
     else if IdleTimeout (opt tp) > 0 then
       (case heap tp cn of
          None \<Rightarrow> Panics
        | Some c \<Rightarrow> Return (time_Sub (clock tp) (usedTime c) \<ge> IdleTimeout (opt tp)))
     else Return False)"

subsection \<open>The closed flag, the admission gate, the dial-error cell\<close>

text \<open>\<^verbatim>\<open>func (tp *ThriftConnPool) closed() bool\<close>\<close>

definition pool_closed :: "world \<Rightarrow> bool" where
  "pool_closed tp = (closed_flag tp = 1)"

text \<open>The capacity of \<^verbatim>\<open>make(chan struct{}, opt.PoolSize)\<close>.\<close>

definition queue_cap :: "world \<Rightarrow> nat" where
  "queue_cap tp = nat (PoolSize (opt tp))"

text \<open>\<^verbatim>\<open>getTurn\<close>: a send on the channel, which blocks while the buffer is full.\<close>

definition getTurn :: "world \<Rightarrow> world outcome" where
  "getTurn tp = (if queue tp < queue_cap tp then Return (tp\<lparr>queue := Suc (queue tp)\<rparr>) else Blocks)"

text \<open>
  \<^verbatim>\<open>waitTurn\<close>: the send succeeds at once when the buffer has room. Otherwise the caller
  waits \<^verbatim>\<open>PoolTimeout\<close> for a slot; within one atomic transition nobody frees one, so the
  timer wins: the timeout is counted and \<^verbatim>\<open>ErrPoolTimeout\<close> returned.
\<close>

definition waitTurn :: "world \<Rightarrow> error option \<times> world" where
  "waitTurn tp =
    (if queue tp < queue_cap tp then (None, tp\<lparr>queue := Suc (queue tp)\<rparr>)
     else (Some ErrPoolTimeout,
           tp\<lparr>stats := (stats tp)\<lparr>Timeouts := Timeouts (stats tp) + 1\<rparr>\<rparr>))"

text \<open>\<^verbatim>\<open>freeTurn\<close>: a receive from the channel, which blocks while the buffer is empty.\<close>

definition freeTurn :: "world \<Rightarrow> world outcome" where
  "freeTurn tp = (if queue tp = 0 then Blocks else Return (tp\<lparr>queue := queue tp - 1\<rparr>))"

definition setLastDialError :: "world \<Rightarrow> error option \<Rightarrow> world" where
  "setLastDialError tp err = tp\<lparr>lastDialError := err\<rparr>"

definition getLastDialError :: "world \<Rightarrow> error option" where
  "getLastDialError tp = lastDialError tp"

subsection \<open>Dialing and the circuit breaker\<close>

text \<open>
  One iteration of the loop of \<^verbatim>\<open>tryDial\<close>, which may run for ever: the result says
  whether the goroutine has returned. The probe connection of a successful dial is closed
  and dropped.
\<close>

definition tryDial_iter :: "world \<Rightarrow> dial \<Rightarrow> (bool \<times> world) outcome" where
  "tryDial_iter tp d =
    (if pool_closed tp then Return (True, tp)
     else
       (case NewThriftConn (Addr (opt tp)) (DialTimeout (opt tp)) d tp of
          (conn, err, tp1) \<Rightarrow>
            if err \<noteq> None then Return (False, setLastDialError tp1 err)
            else
              (case conn_Close (tp1\<lparr>dialErrorsNum := 0\<rparr>) conn of
                 Return (_, tp2) \<Rightarrow> Return (True, tp2)
               | Panics \<Rightarrow> Panics
               | Blocks \<Rightarrow> Blocks)))"

text \<open>
  \<^verbatim>\<open>func (tp *ThriftConnPool) newConn(pooled bool) (*ThriftConn, error)\<close>. The comparison
  is between \<^verbatim>\<open>uint32\<close> values: \<^verbatim>\<open>uint32(tp.opt.PoolSize)\<close> truncates. The statement
  \<^verbatim>\<open>go tp.tryDial()\<close> adds a running recovery goroutine.
\<close>

definition newConn :: "world \<Rightarrow> bool \<Rightarrow> dial \<Rightarrow> addr \<times> error option \<times> world" where
  "newConn tp pooled_arg d =
    (if pool_closed tp then (nil, Some ErrClosed, tp)
     else if dialErrorsNum tp \<ge> word_of_int (PoolSize (opt tp)) then (nil, getLastDialError tp, tp)
     else
       (case NewThriftConn (Addr (opt tp)) (DialTimeout (opt tp)) d tp of
          (conn, err, tp1) \<Rightarrow>
            if err \<noteq> None then
              (let tp2 = setLastDialError tp1 err;
                   tp3 = tp2\<lparr>dialErrorsNum := dialErrorsNum tp2 + 1\<rparr>
               in if dialErrorsNum tp3 = word_of_int (PoolSize (opt tp3))
                  then (nil, err, tp3\<lparr>tryDial_running := Suc (tryDial_running tp3)\<rparr>)
                  else (nil, err, tp3))
            else
              (conn, None,
               tp1\<lparr>heap := (heap tp1)(conn := map_option (\<lambda>c. c\<lparr>pooled := pooled_arg\<rparr>) (heap tp1 conn))\<rparr>)))"

subsection \<open>Minimum idle connections\<close>

text \<open>
  \<^verbatim>\<open>func (tp *ThriftConnPool) addIdleConn()\<close>, the body of the goroutine started by
  \<^verbatim>\<open>checkMinIdleConns\<close>.
\<close>

definition addIdleConn :: "world \<Rightarrow> dial \<Rightarrow> world" where
  "addIdleConn tp d =
    (case newConn tp True d of
       (cn, err, tp1) \<Rightarrow>
         if err \<noteq> None then tp1
         else tp1\<lparr>conns := conns tp1 @ [cn], idleConns := idleConns tp1 @ [cn]\<rparr>)"

text \<open>\<^verbatim>\<open>func (tp *ThriftConnPool) checkMinIdleConns()\<close>\<close>

definition checkMinIdleConns :: "world \<Rightarrow> world" where
  "checkMinIdleConns tp =
    (if MinIdleConns (opt tp) = 0 then tp
     else if poolSize tp < PoolSize (opt tp) \<and> idleConnsLen tp < MinIdleConns (opt tp) then
       tp\<lparr>poolSize := poolSize tp + 1, idleConnsLen := idleConnsLen tp + 1,
          addIdle_running := Suc (addIdle_running tp)\<rparr>
     else tp)"

text \<open>\<^verbatim>\<open>func (tp *ThriftConnPool) popIdle() *ThriftConn\<close>\<close>

definition popIdle :: "world \<Rightarrow> addr \<times> world" where
  "popIdle tp =
    (if length (idleConns tp) = 0 then (nil, tp)
     else
       (let idx = length (idleConns tp) - 1;
            cn = idleConns tp ! idx;
            tp1 = tp\<lparr>idleConns := take idx (idleConns tp), idleConnsLen := idleConnsLen tp - 1\<rparr>
        in (cn, checkMinIdleConns tp1)))"

subsection \<open>Removing connections\<close>

text \<open>
  \<^verbatim>\<open>func (tp *ThriftConnPool) removeConn(cn *ThriftConn)\<close>: the first element of
  \<^verbatim>\<open>conns\<close> equal to \<^verbatim>\<open>cn\<close> is cut out, and \<^verbatim>\<open>cn.pooled\<close> is read only then.
\<close>

definition removeConn :: "world \<Rightarrow> addr \<Rightarrow> world outcome" where
  "removeConn tp cn =
    (if cn \<in> set (conns tp) then
       (let tp1 = tp\<lparr>conns := remove1 cn (conns tp)\<rparr>
        in (case heap tp1 cn of
              None \<Rightarrow> Panics
            | Some c \<Rightarrow>
                if pooled c then Return (checkMinIdleConns (tp1\<lparr>poolSize := poolSize tp1 - 1\<rparr>))
                else Return tp1))
     else Return tp)"

text \<open>\<^verbatim>\<open>func (tp *ThriftConnPool) Remove(cn *ThriftConn, reason error)\<close>\<close>

definition Remove :: "world \<Rightarrow> addr \<Rightarrow> world outcome" where
  "Remove tp cn =
    (case removeConn tp cn of
       Return tp1 \<Rightarrow>
         (case freeTurn tp1 of
            Return tp2 \<Rightarrow>
              (case conn_Close tp2 cn of
                 Return (_, tp3) \<Rightarrow> Return tp3
               | Panics \<Rightarrow> Panics
               | Blocks \<Rightarrow> Blocks)
          | Panics \<Rightarrow> Panics
          | Blocks \<Rightarrow> Blocks)
     | Panics \<Rightarrow> Panics
     | Blocks \<Rightarrow> Blocks)"

text \<open>\<^verbatim>\<open>func (tp *ThriftConnPool) CloseConn(cn *ThriftConn) error\<close>\<close>

definition CloseConn :: "world \<Rightarrow> addr \<Rightarrow> (error option \<times> world) outcome" where
  "CloseConn tp cn =
    (case removeConn tp cn of
       Return tp1 \<Rightarrow> conn_Close tp1 cn
     | Panics \<Rightarrow> Panics
     | Blocks \<Rightarrow> Blocks)"

subsection \<open>Creating and checking out connections\<close>

text \<open>
  \<^verbatim>\<open>func (tp *ThriftConnPool) NewConn(pooled bool) (*ThriftConn, error)\<close>. When
  \<^verbatim>\<open>newConn\<close> returns a nil connection with a nil error, the nil pointer is appended
  like any other, and \<^verbatim>\<open>cn.pooled = false\<close> dereferences it.
\<close>

definition NewConn :: "world \<Rightarrow> bool \<Rightarrow> dial \<Rightarrow> (addr \<times> error option \<times> world) outcome" where
  "NewConn tp pooled_arg d =
    (case newConn tp pooled_arg d of
       (cn, err, tp1) \<Rightarrow>
         if err \<noteq> None then Return (nil, err, tp1)
         else
           (let tp2 = tp1\<lparr>conns := conns tp1 @ [cn]\<rparr>
            in if pooled_arg then
                 (if poolSize tp2 < PoolSize (opt tp2)
                  then Return (cn, None, tp2\<lparr>poolSize := poolSize tp2 + 1\<rparr>)
                  else (case heap tp2 cn of
                          None \<Rightarrow> Panics
                        | Some c \<Rightarrow>
                            Return (cn, None, tp2\<lparr>heap := (heap tp2)(cn \<mapsto> c\<lparr>pooled := False\<rparr>)\<rparr>)))
               else Return (cn, None, tp2)))"

text \<open>
  The part of \<^verbatim>\<open>Get\<close> after its loop: the miss is counted, a connection is created, and
  on an error the turn is given back.
\<close>

definition Get_miss :: "world \<Rightarrow> dial \<Rightarrow> (addr \<times> error option \<times> world) outcome" where
  "Get_miss tp d =
    (let tp1 = tp\<lparr>stats := (stats tp)\<lparr>Misses := Misses (stats tp) + 1\<rparr>\<rparr>
     in (case NewConn tp1 True d of
           Return (newcn, err, tp2) \<Rightarrow>
             if err \<noteq> None then
               (case freeTurn tp2 of
                  Return tp3 \<Rightarrow> Return (nil, err, tp3)
                | Panics \<Rightarrow> Panics
                | Blocks \<Rightarrow> Blocks)
             else Return (newcn, None, tp2)
         | Panics \<Rightarrow> Panics
         | Blocks \<Rightarrow> Blocks))"

text \<open>
  The loop of \<^verbatim>\<open>Get\<close>. A popped nil pointer ends it, whether the idle list was empty
  or held a nil; a stale connection is closed and the loop goes on; any other one is a hit.
\<close>

function Get_loop :: "world \<Rightarrow> dial \<Rightarrow> (addr \<times> error option \<times> world) outcome" where
  "Get_loop tp d =
    (case popIdle tp of
       (cn, tp1) \<Rightarrow>
         if cn = nil then Get_miss tp1 d
         else
           (case isStaleConn tp1 cn of
              Return stale \<Rightarrow>
                if stale then
                  (case CloseConn tp1 cn of
                     Return (e, tp2) \<Rightarrow> Get_loop tp2 d
                   | Panics \<Rightarrow> Panics
                   | Blocks \<Rightarrow> Blocks)
                else Return (cn, None, tp1\<lparr>stats := (stats tp1)\<lparr>Hits := Hits (stats tp1) + 1\<rparr>\<rparr>)
            | Panics \<Rightarrow> Panics
            | Blocks \<Rightarrow> Blocks))"
  by pat_completeness auto
termination
  apply (relation "measure (\<lambda>(tp, d). length (idleConns tp))")
   apply simp
  apply simp
  subgoal for tp cn tp1 stale x2 e tp2
    by (auto simp: popIdle_def checkMinIdleConns_def CloseConn_def removeConn_def
        conn_Close_def Let_def split: if_splits option.splits outcome.splits)
  done

declare Get_loop.simps [simp del]

text \<open>\<^verbatim>\<open>func (tp *ThriftConnPool) Get() (*ThriftConn, error)\<close>\<close>

definition Get :: "world \<Rightarrow> dial \<Rightarrow> (addr \<times> error option \<times> world) outcome" where
  "Get tp d =
    (if pool_closed tp then Return (nil, Some ErrClosed, tp)
     else
       (case waitTurn tp of
          (err, tp1) \<Rightarrow>
            if err \<noteq> None then Return (nil, err, tp1)
            else Get_loop tp1 d))"

text \<open>\<^verbatim>\<open>func (tp *ThriftConnPool) Put(cn *ThriftConn)\<close>\<close>

definition Put :: "world \<Rightarrow> addr \<Rightarrow> world outcome" where
  "Put tp cn =
    (case heap tp cn of
       None \<Rightarrow> Panics
     | Some c \<Rightarrow>
         if \<not> pooled c then Remove tp cn
         else
           (case UpdateUsedTime tp cn of
              Return tp1 \<Rightarrow>
                freeTurn (tp1\<lparr>idleConns := idleConns tp1 @ [cn],
                              idleConnsLen := idleConnsLen tp1 + 1\<rparr>)
            | Panics \<Rightarrow> Panics
            | Blocks \<Rightarrow> Blocks))"

subsection \<open>The reaper\<close>

text \<open>\<^verbatim>\<open>func (tp *ThriftConnPool) reapStaleConn() *ThriftConn\<close>\<close>

definition reapStaleConn :: "world \<Rightarrow> (addr \<times> world) outcome" where
  "reapStaleConn tp =
    (if length (idleConns tp) = 0 then Return (nil, tp)
     else
       (let cn = idleConns tp ! 0
        in (case isStaleConn tp cn of
              Return stale \<Rightarrow>
                if \<not> stale then Return (nil, tp)
                else Return (cn, tp\<lparr>idleConns := drop 1 (idleConns tp),
                                     idleConnsLen := idleConnsLen tp - 1\<rparr>)
            | Panics \<Rightarrow> Panics
            | Blocks \<Rightarrow> Blocks)))"

text \<open>The body of the loop of \<^verbatim>\<open>ReapStaleConns\<close>, up to the final test of \<^verbatim>\<open>cn\<close>.\<close>

definition reap_iter :: "world \<Rightarrow> (addr \<times> world) outcome" where
  "reap_iter tp =
    (case getTurn tp of
       Return tp1 \<Rightarrow>
         (case reapStaleConn tp1 of
            Return (cn, tp2) \<Rightarrow>
              (case (if cn \<noteq> nil then removeConn tp2 cn else Return tp2) of
                 Return tp3 \<Rightarrow>
                   (case freeTurn tp3 of
                      Return tp4 \<Rightarrow>
                        if cn \<noteq> nil then
                          (case conn_Close tp4 cn of
                             Return (_, tp5) \<Rightarrow> Return (cn, tp5)
                           | Panics \<Rightarrow> Panics
                           | Blocks \<Rightarrow> Blocks)
                        else Return (cn, tp4)
                    | Panics \<Rightarrow> Panics
                    | Blocks \<Rightarrow> Blocks)
               | Panics \<Rightarrow> Panics
               | Blocks \<Rightarrow> Blocks)
          | Panics \<Rightarrow> Panics
          | Blocks \<Rightarrow> Blocks)
     | Panics \<Rightarrow> Panics
     | Blocks \<Rightarrow> Blocks)"

text \<open>
  \<^verbatim>\<open>func (tp *ThriftConnPool) ReapStaleConns() (int, error)\<close>: the loop, with the count
  \<^verbatim>\<open>n\<close> as accumulator. The error it returns is always nil.
\<close>

function ReapStaleConns_loop :: "nat \<Rightarrow> world \<Rightarrow> (nat \<times> world) outcome" where
  "ReapStaleConns_loop n tp =
    (case reap_iter tp of
       Return (cn, tp1) \<Rightarrow>
         if cn \<noteq> nil then ReapStaleConns_loop (n + 1) tp1 else Return (n, tp1)
     | Panics \<Rightarrow> Panics
     | Blocks \<Rightarrow> Blocks)"
  by pat_completeness auto
termination
  apply (relation "measure (\<lambda>(n, tp). length (idleConns tp))")
   apply simp
  apply simp
  subgoal for tp x1 cn tp1
    by (auto simp: reap_iter_def getTurn_def reapStaleConn_def removeConn_def freeTurn_def
        conn_Close_def checkMinIdleConns_def Let_def
        split: if_splits option.splits outcome.splits)
  done

declare ReapStaleConns_loop.simps [simp del]

definition ReapStaleConns :: "world \<Rightarrow> (nat \<times> world) outcome" where
  "ReapStaleConns tp = ReapStaleConns_loop 0 tp"

text \<open>
  One tick of \<^verbatim>\<open>reaper\<close>; the result says whether the goroutine has left its loop.
\<close>

definition reaper_tick :: "world \<Rightarrow> (bool \<times> world) outcome" where
  "reaper_tick tp =
    (if pool_closed tp then Return (True, tp)
     else
       (case ReapStaleConns tp of
          Return (n, tp1) \<Rightarrow>
            Return (False, tp1\<lparr>stats := (stats tp1)\<lparr>StaleConns := StaleConns (stats tp1) + of_nat n\<rparr>\<rparr>)
        | Panics \<Rightarrow> Panics
        | Blocks \<Rightarrow> Blocks))"

subsection \<open>Statistics and shutdown\<close>

text \<open>\<^verbatim>\<open>Len\<close>, \<^verbatim>\<open>IdleLen\<close> and \<^verbatim>\<open>Stats\<close>; \<^verbatim>\<open>uint32(...)\<close> truncates.\<close>

definition Len :: "world \<Rightarrow> int" where
  "Len tp = int (length (conns tp))"

definition IdleLen :: "world \<Rightarrow> int" where
  "IdleLen tp = idleConnsLen tp"

definition pool_Stats :: "world \<Rightarrow> Stats" where
  "pool_Stats tp =
    \<lparr>Hits = Hits (stats tp), Misses = Misses (stats tp), Timeouts = Timeouts (stats tp),
     TotalConns = word_of_int (Len tp), IdleConns = word_of_int (IdleLen tp),
     StaleConns = StaleConns (stats tp)\<rparr>"

text \<open>The \<^verbatim>\<open>range\<close> loop of \<^verbatim>\<open>Close\<close> over \<^verbatim>\<open>tp.conns\<close>, with \<^verbatim>\<open>firstErr\<close>.\<close>

fun close_all :: "addr list \<Rightarrow> error option \<Rightarrow> world \<Rightarrow> (error option \<times> world) outcome" where
  "close_all [] firstErr tp = Return (firstErr, tp)"
| "close_all (cn # cns) firstErr tp =
    (case conn_Close tp cn of
       Return (err, tp1) \<Rightarrow>
         close_all cns (if err \<noteq> None \<and> firstErr = None then err else firstErr) tp1
     | Panics \<Rightarrow> Panics
     | Blocks \<Rightarrow> Blocks)"

text \<open>\<^verbatim>\<open>func (tp *ThriftConnPool) Close() error\<close>\<close>

definition Close :: "world \<Rightarrow> (error option \<times> world) outcome" where
  "Close tp =
    (if closed_flag tp \<noteq> 0 then Return (Some ErrClosed, tp)
     else
       (case close_all (conns tp) None (tp\<lparr>closed_flag := 1\<rparr>) of
          Return (firstErr, tp1) \<Rightarrow>
            Return (firstErr, tp1\<lparr>conns := [], poolSize := 0, idleConns := [], idleConnsLen := 0\<rparr>)
        | Panics \<Rightarrow> Panics
        | Blocks \<Rightarrow> Blocks))"

subsection \<open>Construction\<close>

text \<open>The loop \<^verbatim>\<open>for i := 0; i < opt.MinIdleConns; i++\<close> of the constructor.\<close>

fun minIdle_loop :: "nat \<Rightarrow> world \<Rightarrow> world" where
  "minIdle_loop 0 p = p"
| "minIdle_loop (Suc n) p = minIdle_loop n (checkMinIdleConns p)"

text \<open>
  The largest capacity \<^verbatim>\<open>make([]*ThriftConn, 0, n)\<close> accepts. Modelled from the Go
  runtime, which this repository does not contain: \<^verbatim>\<open>makeslice\<close> panics when \<open>n\<close>
  is negative or when \<open>n\<close> pointers of 8 bytes need more than \<^verbatim>\<open>maxAlloc\<close>, which is
  \<open>2 ^ 48\<close> bytes on a 64-bit platform. (The channel of empty structs needs no memory
  for its buffer and only refuses a negative size.)
\<close>

definition maxSliceCap :: int where
  "maxSliceCap = 2 ^ 45"

text \<open>
  \<^verbatim>\<open>func NewThriftConnPool(opt *Options) *ThriftConnPool\<close>. The options are used as
  they are given. The three \<^verbatim>\<open>make\<close> calls panic on a negative capacity, and the two
  that make slices also on one above \<open>maxSliceCap\<close>; below that the memory is taken to
  be there. The pool starts in an empty heap, at time 0.
\<close>

definition NewThriftConnPool :: "Options \<Rightarrow> world outcome" where
  "NewThriftConnPool o0 =
    (if PoolSize o0 < 0 \<or> maxSliceCap < PoolSize o0 then Panics
     else
       (let p = \<lparr>opt = o0, dialErrorsNum = 0, lastDialError = None, queue = 0,
                 conns = [], idleConns = [], poolSize = 0, idleConnsLen = 0,
                 stats = \<lparr>Hits = 0, Misses = 0, Timeouts = 0, TotalConns = 0,
                          IdleConns = 0, StaleConns = 0\<rparr>,
                 closed_flag = 0,
                 heap = Map.empty, nextAddr = 1, clock = 0, addIdle_running = 0,
                 tryDial_running = 0, reaper_running = 0, held = []\<rparr>;
            p1 = minIdle_loop (nat (MinIdleConns o0)) p
        in if IdleTimeout o0 > 0 \<and> IdleCheckFrequency o0 > 0
           then Return (p1\<lparr>reaper_running := 1\<rparr>)
           else Return p1))"

section \<open>Runs of the pool\<close>

text \<open>
  What can happen to a pool: a caller's \<^verbatim>\<open>Get\<close> (with the outcome of the dial it may
  make), \<^verbatim>\<open>Put\<close> or \<^verbatim>\<open>Remove\<close> of a connection, a tick of the reaper, the run of a
  goroutine \<^verbatim>\<open>addIdleConn\<close>, one iteration of \<^verbatim>\<open>tryDial\<close>, \<^verbatim>\<open>Close\<close>, and the passing
  of time.
\<close>

datatype event =
    EGet dial
  | EPut addr
  | ERemove addr
  | EReaper
  | EAddIdle dial
  | ETryDial dial
  | EClose
  | ETick nat

text \<open>
  A goroutine runs only if it was started; a caller passes to \<^verbatim>\<open>Put\<close> and
  \<^verbatim>\<open>Remove\<close> only a connection it holds.
\<close>

fun enabled :: "world \<Rightarrow> event \<Rightarrow> bool" where
  "enabled w (EGet d) = True"
| "enabled w (EPut cn) = (cn \<in> set (held w))"
| "enabled w (ERemove cn) = (cn \<in> set (held w))"
| "enabled w EReaper = (reaper_running w > 0)"
| "enabled w (EAddIdle d) = (addIdle_running w > 0)"
| "enabled w (ETryDial d) = (tryDial_running w > 0)"
| "enabled w EClose = True"
| "enabled w (ETick n) = True"

fun step :: "world \<Rightarrow> event \<Rightarrow> world outcome" where
  "step w (EGet d) =
    (case Get w d of
       Return (cn, err, w1) \<Rightarrow> Return (if cn \<noteq> nil then w1\<lparr>held := cn # held w1\<rparr> else w1)
     | Panics \<Rightarrow> Panics
     | Blocks \<Rightarrow> Blocks)"
| "step w (EPut cn) =
    (case Put w cn of
       Return w1 \<Rightarrow> Return (w1\<lparr>held := remove1 cn (held w1)\<rparr>)
     | Panics \<Rightarrow> Panics
     | Blocks \<Rightarrow> Blocks)"
| "step w (ERemove cn) =
    (case Remove w cn of
       Return w1 \<Rightarrow> Return (w1\<lparr>held := remove1 cn (held w1)\<rparr>)
     | Panics \<Rightarrow> Panics
     | Blocks \<Rightarrow> Blocks)"
| "step w EReaper =
    (case reaper_tick w of
       Return (finished, w1) \<Rightarrow>
         Return (if finished then w1\<lparr>reaper_running := reaper_running w1 - 1\<rparr> else w1)
     | Panics \<Rightarrow> Panics
     | Blocks \<Rightarrow> Blocks)"
| "step w (EAddIdle d) =
    (let w1 = addIdleConn w d in Return (w1\<lparr>addIdle_running := addIdle_running w1 - 1\<rparr>))"
| "step w (ETryDial d) =
    (case tryDial_iter w d of
       Return (finished, w1) \<Rightarrow>
         Return (if finished then w1\<lparr>tryDial_running := tryDial_running w1 - 1\<rparr> else w1)
     | Panics \<Rightarrow> Panics
     | Blocks \<Rightarrow> Blocks)"
| "step w EClose =
    (case Close w of
       Return (err, w1) \<Rightarrow> Return w1
     | Panics \<Rightarrow> Panics
     | Blocks \<Rightarrow> Blocks)"
| "step w (ETick n) = Return (w\<lparr>clock := clock w + int n\<rparr>)"

text \<open>
  A run is a list of events, each enabled where it happens and each returning; its result
  is the world it ends in.
\<close>

fun run :: "world \<Rightarrow> event list \<Rightarrow> world option" where
  "run w [] = Some w"
| "run w (e # es) =
    (if enabled w e then
       (case step w e of
          Return w1 \<Rightarrow> run w1 es
        | Panics \<Rightarrow> None
        | Blocks \<Rightarrow> None)
     else None)"

subsection \<open>Concrete configurations\<close>

text \<open>
  Options with a given capacity, minimum of idle connections, idle timeout and reaper
  frequency, and the world a list of events leads to from the pool constructed with some
  options.
\<close>

definition pool_options :: "int \<Rightarrow> int \<Rightarrow> int \<Rightarrow> int \<Rightarrow> Options" where
  "pool_options sz minIdle idleTimeout checkFrequency =
    \<lparr>Addr = ''127.0.0.1:9898'', MaxRetries = 0, DialTimeout = 5 * Second, ReadTimeout = 0,
     WriteTimeout = 0, IdleTimeout = idleTimeout, PoolTimeout = 0,
     IdleCheckFrequency = checkFrequency, PoolSize = sz, MinIdleConns = minIdle\<rparr>"

definition run_from :: "Options \<Rightarrow> event list \<Rightarrow> world option" where
  "run_from o0 evs =
    (case NewThriftConnPool o0 of Return w \<Rightarrow> run w evs | Panics \<Rightarrow> None | Blocks \<Rightarrow> None)"

text \<open>What an observer sees of a connection (closed, pooled) and of a call of
  \<^verbatim>\<open>newConn\<close> or \<^verbatim>\<open>Get\<close>.\<close>

definition conn_at :: "world option \<Rightarrow> addr \<Rightarrow> (bool \<times> bool) option" where
  "conn_at r a =
    (case r of None \<Rightarrow> None | Some w \<Rightarrow> map_option (\<lambda>c. (closed c, pooled c)) (heap w a))"


definition Get_result :: "world option \<Rightarrow> dial \<Rightarrow> (addr \<times> error option) option" where
  "Get_result r d =
    (case r of
       None \<Rightarrow> None
     | Some w \<Rightarrow>
         (case Get w d of Return (cn, err, w1) \<Rightarrow> Some (cn, err) | Panics \<Rightarrow> None | Blocks \<Rightarrow> None))"

section \<open>Invariants\<close>

text \<open>
  Allocation: address 0 and the addresses from \<open>nextAddr\<close> on are free; the pool and
  the callers only know allocated addresses or nil; and every idle connection that exists
  has \<^verbatim>\<open>pooled\<close> set.
\<close>

definition alloc_inv :: "world \<Rightarrow> bool" where
  "alloc_inv w =
    (0 < nextAddr w \<and> (\<forall>a c. heap w a = Some c \<longrightarrow> 0 < a \<and> a < nextAddr w) \<and>
     (\<forall>c \<in> set (conns w). c < nextAddr w) \<and>
     (\<forall>c \<in> set (idleConns w). c < nextAddr w) \<and>
     (\<forall>c \<in> set (held w). c < nextAddr w) \<and>
     (\<forall>c \<in> set (idleConns w). \<forall>cn. heap w c = Some cn \<longrightarrow> pooled cn))"

text \<open>
  The capacity as \<^verbatim>\<open>newConn\<close> compares it, \<^verbatim>\<open>uint32(tp.opt.PoolSize)\<close>, and two
  relations between the world before and after a call. \<open>frame\<close>: the options, the closed
  flag and the circuit breaker are untouched and no connection was added. \<open>dials\<close>: the
  call made at most one dial through \<^verbatim>\<open>newConn\<close>; if it failed, the error was stored
  and counted, and the recovery goroutine was started when the count reached the capacity;
  on a closed pool no connection was added.
\<close>

definition cap32 :: "world \<Rightarrow> 32 word" where
  "cap32 w = word_of_int (PoolSize (opt w))"

definition frame :: "world \<Rightarrow> world \<Rightarrow> bool" where
  "frame w w' =
    (opt w' = opt w \<and> closed_flag w' = closed_flag w \<and> dialErrorsNum w' = dialErrorsNum w \<and>
     lastDialError w' = lastDialError w \<and> tryDial_running w' = tryDial_running w \<and>
     length (conns w') \<le> length (conns w))"

definition dials :: "world \<Rightarrow> world \<Rightarrow> bool" where
  "dials w w' =
    (opt w' = opt w \<and> closed_flag w' = closed_flag w \<and>
     (pool_closed w \<longrightarrow> length (conns w') \<le> length (conns w)) \<and>
     (dialErrorsNum w' = dialErrorsNum w \<and> lastDialError w' = lastDialError w \<and>
      tryDial_running w' = tryDial_running w \<or>
      \<not> pool_closed w \<and> dialErrorsNum w < cap32 w \<and> dialErrorsNum w' = dialErrorsNum w + 1 \<and>
      lastDialError w' \<noteq> None \<and>
      tryDial_running w' = tryDial_running w + (if dialErrorsNum w' = cap32 w then 1 else 0)))"

text \<open>
  The circuit breaker, for a capacity that \<^verbatim>\<open>uint32\<close> does not turn into 0: the count
  of failures never passes the capacity; once a dial has failed an error is stored; and
  while the pool is open the recovery goroutine runs exactly when the count has reached
  the capacity (after \<^verbatim>\<open>Close\<close> it may still be running, or have returned).
\<close>

definition breaker_inv :: "world \<Rightarrow> bool" where
  "breaker_inv w =
    ((closed_flag w = 0 \<or> closed_flag w = 1) \<and> cap32 w \<noteq> 0 \<and> dialErrorsNum w \<le> cap32 w \<and>
     (dialErrorsNum w \<noteq> 0 \<longrightarrow> lastDialError w \<noteq> None) \<and>
     (pool_closed w \<longrightarrow> tryDial_running w \<le> 1) \<and>
     (\<not> pool_closed w \<and> cap32 w \<le> dialErrorsNum w \<longrightarrow> tryDial_running w = 1) \<and>
     (\<not> pool_closed w \<and> \<not> cap32 w \<le> dialErrorsNum w \<longrightarrow> tryDial_running w = 0))"


text \<open>
  By how much the idle counter exceeds the idle connections there are and the dials
  that may still deliver one.
\<close>

definition idle_excess :: "world \<Rightarrow> int" where
  "idle_excess w = idleConnsLen w - int (length (idleConns w)) - int (addIdle_running w)"

text \<open>
  What \<^verbatim>\<open>Close\<close> should return and leave behind: \<open>close_error w cn\<close> is the error
  that closing \<open>cn\<close> in \<open>w\<close> gives (nil when it is closed already),
  \<open>first_close_error\<close> the first such error along a list, and \<open>close_heap\<close> the heap
  with the connections of a list closed.
\<close>

definition close_error :: "world \<Rightarrow> addr \<Rightarrow> error option" where
  "close_error w cn =
    (case heap w cn of None \<Rightarrow> None | Some c \<Rightarrow> if closed c then None else socket c)"


definition close_heap :: "(addr \<Rightarrow> ThriftConn option) \<Rightarrow> addr list \<Rightarrow> addr \<Rightarrow> ThriftConn option" where
  "close_heap h cns a = (if a \<in> set cns then map_option (\<lambda>c. c\<lparr>closed := True\<rparr>) (h a) else h a)"

text \<open>
  What the loop of \<^verbatim>\<open>Get\<close> does to the pool when it discards the connections of a list:
  they are closed and cut out of \<^verbatim>\<open>conns\<close>, and the options, the clock, the statistics,
  the channel, the closed flag and the dial-error cell stay as they were.
\<close>

definition dropped :: "world \<Rightarrow> addr list \<Rightarrow> world \<Rightarrow> bool" where
  "dropped w post w2 =
    (opt w2 = opt w \<and> clock w2 = clock w \<and> stats w2 = stats w \<and> queue w2 = queue w \<and>
     nextAddr w2 = nextAddr w \<and> closed_flag w2 = closed_flag w \<and>
     dialErrorsNum w2 = dialErrorsNum w \<and> lastDialError w2 = lastDialError w \<and>
     heap w2 = close_heap (heap w) post \<and> mset (conns w2) = mset (conns w) - mset post)"

section \<open>Basic facts\<close>

lemma popIdle_shorter:
  "popIdle tp = (cn, tp1) \<Longrightarrow> cn \<noteq> nil \<Longrightarrow> length (idleConns tp1) < length (idleConns tp)"
  by (auto simp: popIdle_def checkMinIdleConns_def Let_def split: if_splits)

lemma idleConns_checkMinIdleConns [simp]: "idleConns (checkMinIdleConns tp) = idleConns tp"
  by (simp add: checkMinIdleConns_def)

lemma removeConn_idleConns: "removeConn tp cn = Return tp1 \<Longrightarrow> idleConns tp1 = idleConns tp"
  by (auto simp: removeConn_def Let_def split: if_splits option.splits)

lemma conn_Close_idleConns: "conn_Close tp cn = Return (e, tp1) \<Longrightarrow> idleConns tp1 = idleConns tp"
  by (auto simp: conn_Close_def split: if_splits option.splits)

lemma CloseConn_idleConns: "CloseConn tp cn = Return (e, tp1) \<Longrightarrow> idleConns tp1 = idleConns tp"
  by (cases "removeConn tp cn") (simp_all add: CloseConn_def removeConn_idleConns conn_Close_idleConns)

lemma getTurn_idleConns: "getTurn tp = Return tp1 \<Longrightarrow> idleConns tp1 = idleConns tp"
  by (auto simp: getTurn_def split: if_splits)

lemma freeTurn_idleConns: "freeTurn tp = Return tp1 \<Longrightarrow> idleConns tp1 = idleConns tp"
  by (auto simp: freeTurn_def split: if_splits)

lemma reapStaleConn_shorter:
  "reapStaleConn tp = Return (cn, tp1) \<Longrightarrow> cn \<noteq> nil \<Longrightarrow> length (idleConns tp1) < length (idleConns tp)"
  by (auto simp: reapStaleConn_def Let_def split: if_splits outcome.splits)

lemma reap_iter_shorter:
  assumes "reap_iter tp = Return (cn, tp') " and "cn \<noteq> nil"
  shows "length (idleConns tp') < length (idleConns tp)"
proof -
  from assms obtain tp1 tp2 tp3 tp4 e where
    s: "getTurn tp = Return tp1" "reapStaleConn tp1 = Return (cn, tp2)"
       "removeConn tp2 cn = Return tp3" "freeTurn tp3 = Return tp4"
       "conn_Close tp4 cn = Return (e, tp')"
    by (auto simp: reap_iter_def split: outcome.splits if_splits)
  have "length (idleConns tp2) < length (idleConns tp1)"
    using s(2) assms(2) by (rule reapStaleConn_shorter)
  then show ?thesis
    using getTurn_idleConns [OF s(1)] removeConn_idleConns [OF s(3)]
      freeTurn_idleConns [OF s(4)] conn_Close_idleConns [OF s(5)] by simp
qed

section \<open>Allocation is an invariant\<close>

lemma checkMinIdleConns_fields [simp]:
  "opt (checkMinIdleConns w) = opt w"
  "conns (checkMinIdleConns w) = conns w"
  "heap (checkMinIdleConns w) = heap w"
  "nextAddr (checkMinIdleConns w) = nextAddr w"
  "held (checkMinIdleConns w) = held w"
  "closed_flag (checkMinIdleConns w) = closed_flag w"
  "queue (checkMinIdleConns w) = queue w"
  "dialErrorsNum (checkMinIdleConns w) = dialErrorsNum w"
  "lastDialError (checkMinIdleConns w) = lastDialError w"
  "stats (checkMinIdleConns w) = stats w"
  "clock (checkMinIdleConns w) = clock w"
  "tryDial_running (checkMinIdleConns w) = tryDial_running w"
  "reaper_running (checkMinIdleConns w) = reaper_running w"
  by (simp_all add: checkMinIdleConns_def)

lemma popIdle_Nil: "idleConns w = [] \<Longrightarrow> popIdle w = (nil, w)"
  by (simp add: popIdle_def)

lemma popIdle_snoc:
  "idleConns w = xs @ [c] \<Longrightarrow>
   popIdle w = (c, checkMinIdleConns (w\<lparr>idleConns := xs, idleConnsLen := idleConnsLen w - 1\<rparr>))"
  by (simp add: popIdle_def Let_def nth_append)

lemma alloc_inv_checkMinIdleConns [simp]: "alloc_inv (checkMinIdleConns w) = alloc_inv w"
  by (simp add: alloc_inv_def)

lemma alloc_inv_conn_Close: "conn_Close w cn = Return (e, w1) \<Longrightarrow> alloc_inv w \<Longrightarrow> alloc_inv w1"
  by (auto simp: conn_Close_def alloc_inv_def split: option.splits if_splits)

lemma alloc_inv_UpdateUsedTime: "UpdateUsedTime w cn = Return w1 \<Longrightarrow> alloc_inv w \<Longrightarrow> alloc_inv w1"
  by (auto simp: UpdateUsedTime_def alloc_inv_def split: option.splits if_splits)

lemma alloc_inv_getTurn: "getTurn w = Return w1 \<Longrightarrow> alloc_inv w \<Longrightarrow> alloc_inv w1"
  by (auto simp: getTurn_def alloc_inv_def split: if_splits)

lemma alloc_inv_freeTurn: "freeTurn w = Return w1 \<Longrightarrow> alloc_inv w \<Longrightarrow> alloc_inv w1"
  by (auto simp: freeTurn_def alloc_inv_def split: if_splits)

lemma alloc_inv_waitTurn: "waitTurn w = (e, w1) \<Longrightarrow> alloc_inv w \<Longrightarrow> alloc_inv w1"
  by (auto simp: waitTurn_def alloc_inv_def split: if_splits)

lemma alloc_inv_newConn:
  "newConn w p d = (cn, e, w1) \<Longrightarrow> alloc_inv w \<Longrightarrow>
   alloc_inv w1 \<and> cn < nextAddr w1 \<and> conns w1 = conns w \<and> idleConns w1 = idleConns w \<and>
   held w1 = held w \<and> (cn \<noteq> nil \<longrightarrow> (\<exists>c. heap w1 cn = Some c \<and> pooled c = p) \<and> nextAddr w \<le> cn)"
  by (auto simp: newConn_def NewThriftConn_def setLastDialError_def getLastDialError_def Let_def
      alloc_inv_def less_Suc_eq split: if_splits dial.splits)

lemma alloc_inv_tryDial_iter: "tryDial_iter w d = Return (b, w1) \<Longrightarrow> alloc_inv w \<Longrightarrow> alloc_inv w1"
  by (auto simp: tryDial_iter_def conn_Close_def NewThriftConn_def setLastDialError_def
      alloc_inv_def less_Suc_eq split: if_splits dial.splits)

lemma alloc_inv_popIdle:
  assumes "popIdle w = (cn, w1)" and "alloc_inv w"
  shows "alloc_inv w1 \<and> cn < nextAddr w1 \<and> held w1 = held w"
proof (cases "idleConns w" rule: rev_cases)
  case Nil
  then show ?thesis using assms by (auto simp: popIdle_Nil alloc_inv_def)
next
  case (snoc xs c)
  then show ?thesis using assms by (auto simp: popIdle_snoc alloc_inv_def)
qed

lemma alloc_inv_removeConn:
  "removeConn w cn = Return w1 \<Longrightarrow> alloc_inv w \<Longrightarrow> alloc_inv w1 \<and> held w1 = held w \<and> nextAddr w1 = nextAddr w"
  by (auto simp: removeConn_def Let_def alloc_inv_def split: option.splits if_splits
      dest: notin_set_remove1)


lemma alloc_inv_CloseConn:
  "CloseConn w cn = Return (e, w1) \<Longrightarrow> alloc_inv w \<Longrightarrow> alloc_inv w1 \<and> held w1 = held w"
  by (auto simp: CloseConn_def conn_Close_def split: outcome.splits option.splits if_splits
      dest!: alloc_inv_removeConn) (auto simp: alloc_inv_def)

lemma alloc_inv_Remove:
  "Remove w cn = Return w1 \<Longrightarrow> alloc_inv w \<Longrightarrow> alloc_inv w1 \<and> held w1 = held w"
  by (auto simp: Remove_def conn_Close_def freeTurn_def
      split: outcome.splits option.splits if_splits dest!: alloc_inv_removeConn)
    (auto simp: alloc_inv_def)

lemma alloc_inv_register:
  "alloc_inv w \<Longrightarrow> cn < nextAddr w \<Longrightarrow> alloc_inv (w\<lparr>conns := conns w @ [cn]\<rparr>)"
  "alloc_inv w \<Longrightarrow> cn < nextAddr w \<Longrightarrow>
   alloc_inv (w\<lparr>conns := conns w @ [cn], poolSize := n\<rparr>)"
  by (auto simp: alloc_inv_def)

lemma alloc_inv_unpool:
  "alloc_inv w \<Longrightarrow> heap w cn = Some x \<Longrightarrow> cn \<notin> set (idleConns w) \<Longrightarrow>
   alloc_inv (w\<lparr>conns := conns w @ [cn], heap := (heap w)(cn \<mapsto> x\<lparr>pooled := False\<rparr>)\<rparr>)"
  by (auto simp: alloc_inv_def)

lemma NewConn_cases:
  "newConn w p d = (c0, Some e0, w0) \<Longrightarrow> NewConn w p d = Return (nil, Some e0, w0)"
  "newConn w p d = (c0, None, w0) \<Longrightarrow> \<not> p \<Longrightarrow>
   NewConn w p d = Return (c0, None, w0\<lparr>conns := conns w0 @ [c0]\<rparr>)"
  "newConn w p d = (c0, None, w0) \<Longrightarrow> p \<Longrightarrow> poolSize w0 < PoolSize (opt w0) \<Longrightarrow>
   NewConn w p d = Return (c0, None, w0\<lparr>conns := conns w0 @ [c0], poolSize := poolSize w0 + 1\<rparr>)"
  "newConn w p d = (c0, None, w0) \<Longrightarrow> p \<Longrightarrow> \<not> poolSize w0 < PoolSize (opt w0) \<Longrightarrow>
   heap w0 c0 = Some x \<Longrightarrow>
   NewConn w p d = Return (c0, None, w0\<lparr>conns := conns w0 @ [c0],
                                          heap := (heap w0)(c0 \<mapsto> x\<lparr>pooled := False\<rparr>)\<rparr>)"
  "newConn w p d = (c0, None, w0) \<Longrightarrow> p \<Longrightarrow> \<not> poolSize w0 < PoolSize (opt w0) \<Longrightarrow>
   heap w0 c0 = None \<Longrightarrow> NewConn w p d = Panics"
  by (simp_all add: NewConn_def Let_def)

lemma alloc_inv_NewConn:
  assumes "NewConn w p d = Return (cn, e, w1)" and "alloc_inv w"
  shows "alloc_inv w1 \<and> cn < nextAddr w1 \<and> held w1 = held w"
proof -
  obtain c0 e0 w0 where n: "newConn w p d = (c0, e0, w0)"
    by (cases "newConn w p d") auto
  note i = alloc_inv_newConn [OF n assms(2)]
  show ?thesis
  proof (cases e0)
    case (Some e1)
    then show ?thesis using assms(1) n i NewConn_cases(1) [of w p d c0 e1 w0] by simp
  next
    case None
    have fresh: "c0 \<notin> set (idleConns w0)" if "heap w0 c0 = Some x" for x
    proof -
      have "c0 \<noteq> nil" using i that by (auto simp: alloc_inv_def)
      then have "nextAddr w \<le> c0" using i by simp
      moreover have "\<forall>c \<in> set (idleConns w0). c < nextAddr w"
        using assms(2) i by (simp add: alloc_inv_def)
      ultimately show ?thesis by auto
    qed
    note n0 = n [unfolded None]
    consider (plain) "\<not> p" | (pooled) "p" "poolSize w0 < PoolSize (opt w0)"
      | (overflow) x where "p" "\<not> poolSize w0 < PoolSize (opt w0)" "heap w0 c0 = Some x"
      | (panic) "p" "\<not> poolSize w0 < PoolSize (opt w0)" "heap w0 c0 = None"
      by (cases "heap w0 c0") auto
    then show ?thesis
    proof cases
      case plain
      then show ?thesis
        using assms(1) NewConn_cases(2) [OF n0] alloc_inv_register(1) [of w0 c0] i by simp
    next
      case pooled
      then show ?thesis
        using assms(1) NewConn_cases(3) [OF n0] alloc_inv_register(2) [of w0 c0] i by simp
    next
      case overflow
      then show ?thesis
        using assms(1) NewConn_cases(4) [OF n0] alloc_inv_unpool [of w0 c0 x] fresh [of x] i
        by simp
    next
      case panic
      then show ?thesis
        using assms(1) NewConn_cases(5) [OF n0] by simp
    qed
  qed
qed

lemma alloc_inv_Get_miss:
  assumes "Get_miss w d = Return (cn, e, w1)" and "alloc_inv w"
  shows "alloc_inv w1 \<and> cn < nextAddr w1 \<and> held w1 = held w"
proof -
  let ?w = "w\<lparr>stats := (stats w)\<lparr>Misses := Misses (stats w) + 1\<rparr>\<rparr>"
  have a: "alloc_inv ?w" "held ?w = held w"
    using assms(2) by (auto simp: alloc_inv_def)
  from assms(1) obtain c2 e2 w2 where n: "NewConn ?w True d = Return (c2, e2, w2)"
    by (auto simp: Get_miss_def Let_def split: outcome.splits)
  note i = alloc_inv_NewConn [OF n a(1)]
  show ?thesis
  proof (cases "e2 = None")
    case True
    then show ?thesis using assms(1) n i a(2) by (auto simp: Get_miss_def Let_def)
  next
    case False
    then obtain w3 where f: "freeTurn w2 = Return w3" "w1 = w3" "cn = nil"
      using assms(1) n by (auto simp: Get_miss_def Let_def split: outcome.splits)
    then show ?thesis using i a(2) alloc_inv_freeTurn [OF f(1)]
      by (auto simp: freeTurn_def alloc_inv_def split: if_splits)
  qed
qed

lemma alloc_inv_hit:
  "alloc_inv w \<Longrightarrow> alloc_inv (w\<lparr>stats := (stats w)\<lparr>Hits := Hits (stats w) + 1\<rparr>\<rparr>)"
  by (simp add: alloc_inv_def)

lemma alloc_inv_Get_loop:
  "Get_loop w d = Return (cn, e, w') \<Longrightarrow> alloc_inv w \<Longrightarrow>
   alloc_inv w' \<and> cn < nextAddr w' \<and> held w' = held w"
proof (induction w d rule: Get_loop.induct)
  case (1 tp d)
  obtain c tp1 where p: "popIdle tp = (c, tp1)"
    by (cases "popIdle tp") auto
  note i = alloc_inv_popIdle [OF p "1.prems"(2)]
  show ?case
  proof (cases "c = nil")
    case True
    then have "Get_miss tp1 d = Return (cn, e, w')"
      using "1.prems"(1) p by (simp add: Get_loop.simps [of tp d])
    then show ?thesis using alloc_inv_Get_miss i by metis
  next
    case False
    then obtain stale where s: "isStaleConn tp1 c = Return stale"
      using "1.prems"(1) p by (auto simp: Get_loop.simps [of tp d] split: outcome.splits)
    show ?thesis
    proof (cases stale)
      case False
      then show ?thesis
        using "1.prems"(1) p s \<open>c \<noteq> nil\<close> i
        by (auto simp: Get_loop.simps [of tp d] alloc_inv_def)
    next
      case True
      then obtain e2 tp2 where c: "CloseConn tp1 c = Return (e2, tp2)"
        and g: "Get_loop tp2 d = Return (cn, e, w')"
        using "1.prems"(1) p s \<open>c \<noteq> nil\<close>
        by (auto simp: Get_loop.simps [of tp d] split: outcome.splits)
      have a2: "alloc_inv tp2" "held tp2 = held tp1"
        using alloc_inv_CloseConn [OF c] i by auto
      have "alloc_inv w' \<and> cn < nextAddr w' \<and> held w' = held tp2"
        using "1.IH" [OF p [symmetric] \<open>c \<noteq> nil\<close> s True c refl g a2(1)] .
      then show ?thesis using a2 i by simp
    qed
  qed
qed

lemma alloc_inv_Get:
  assumes "Get w d = Return (cn, e, w')" and "alloc_inv w"
  shows "alloc_inv w' \<and> cn < nextAddr w' \<and> held w' = held w"
proof (cases "pool_closed w")
  case True
  then show ?thesis using assms by (auto simp: Get_def alloc_inv_def)
next
  case False
  obtain e1 w1 where wt: "waitTurn w = (e1, w1)"
    by (cases "waitTurn w") auto
  have a1: "alloc_inv w1" "held w1 = held w"
    using alloc_inv_waitTurn [OF wt assms(2)] wt by (auto simp: waitTurn_def split: if_splits)
  show ?thesis
  proof (cases "e1 = None")
    case True
    then have "Get_loop w1 d = Return (cn, e, w')"
      using assms(1) False wt by (simp add: Get_def)
    then show ?thesis using alloc_inv_Get_loop a1 by metis
  next
    case False
    then show ?thesis using assms(1) \<open>\<not> pool_closed w\<close> wt a1
      by (auto simp: Get_def alloc_inv_def)
  qed
qed

lemma alloc_inv_requeue:
  "alloc_inv w \<Longrightarrow> heap w cn = Some c \<Longrightarrow> pooled c \<Longrightarrow>
   alloc_inv (w\<lparr>idleConns := idleConns w @ [cn], idleConnsLen := n\<rparr>)"
  by (auto simp: alloc_inv_def)

lemma alloc_inv_Put:
  assumes "Put w cn = Return w1" and "alloc_inv w"
  shows "alloc_inv w1 \<and> held w1 = held w"
proof -
  from assms(1) obtain c where c: "heap w cn = Some c"
    by (auto simp: Put_def split: option.splits)
  show ?thesis
  proof (cases "pooled c")
    case False
    then have "Remove w cn = Return w1" using assms(1) c by (simp add: Put_def)
    then show ?thesis using alloc_inv_Remove assms(2) by blast
  next
    case True
    let ?u = "w\<lparr>heap := (heap w)(cn \<mapsto> c\<lparr>usedTime := clock w\<rparr>)\<rparr>"
    have u: "UpdateUsedTime w cn = Return ?u"
      using c by (simp add: UpdateUsedTime_def)
    have au: "alloc_inv ?u"
      using alloc_inv_UpdateUsedTime [OF u assms(2)] .
    let ?v = "?u\<lparr>idleConns := idleConns ?u @ [cn], idleConnsLen := idleConnsLen ?u + 1\<rparr>"
    have "alloc_inv ?v"
      using alloc_inv_requeue [OF au, of cn "c\<lparr>usedTime := clock w\<rparr>"] True by simp
    moreover have "freeTurn ?v = Return w1"
      using assms(1) c True u by (simp add: Put_def)
    ultimately show ?thesis
      using alloc_inv_freeTurn [of ?v w1] by (auto simp: freeTurn_def split: if_splits)
  qed
qed

lemma reapStaleConn_cases:
  "idleConns w = [] \<Longrightarrow> reapStaleConn w = Return (nil, w)"
  "idleConns w = c # xs \<Longrightarrow> isStaleConn w c = Return False \<Longrightarrow> reapStaleConn w = Return (nil, w)"
  "idleConns w = c # xs \<Longrightarrow> isStaleConn w c = Return True \<Longrightarrow>
   reapStaleConn w = Return (c, w\<lparr>idleConns := xs, idleConnsLen := idleConnsLen w - 1\<rparr>)"
  "idleConns w = c # xs \<Longrightarrow> isStaleConn w c = Panics \<Longrightarrow> reapStaleConn w = Panics"
  by (simp_all add: reapStaleConn_def)

lemma isStaleConn_not_Blocks: "isStaleConn w c \<noteq> Blocks"
  by (simp add: isStaleConn_def split: option.splits)

lemma isStaleConn_True_heap: "isStaleConn w c = Return True \<Longrightarrow> \<exists>x. heap w c = Some x"
  by (auto simp: isStaleConn_def split: option.splits if_splits)

lemma alloc_inv_reapStaleConn:
  assumes "reapStaleConn w = Return (cn, w1)" and "alloc_inv w"
  shows "alloc_inv w1 \<and> held w1 = held w"
proof (cases "idleConns w")
  case Nil
  then show ?thesis using assms reapStaleConn_cases(1) [of w] by simp
next
  case (Cons c xs)
  show ?thesis
  proof (cases "isStaleConn w c")
    case (Return b)
    have "alloc_inv (w\<lparr>idleConns := xs, idleConnsLen := idleConnsLen w - 1\<rparr>)"
      using assms(2) Cons by (auto simp: alloc_inv_def)
    then show ?thesis
      using assms Cons Return reapStaleConn_cases(2,3) [of w c xs] by (cases b) auto
  next
    case Panics
    then show ?thesis using assms Cons reapStaleConn_cases(4) [of w c xs] by simp
  next
    case Blocks
    then show ?thesis using isStaleConn_not_Blocks by blast
  qed
qed

lemma alloc_inv_reap_iter:
  assumes "reap_iter w = Return (cn, w')" and "alloc_inv w"
  shows "alloc_inv w' \<and> held w' = held w"
proof -
  from assms(1) obtain w1 w2 w3 w4 where
    s: "getTurn w = Return w1" "reapStaleConn w1 = Return (cn, w2)"
       "(if cn \<noteq> nil then removeConn w2 cn else Return w2) = Return w3"
       "freeTurn w3 = Return w4"
    by (auto simp: reap_iter_def split: outcome.splits if_splits)
  have 1: "alloc_inv w1" "held w1 = held w"
    using alloc_inv_getTurn [OF s(1) assms(2)] s(1) by (auto simp: getTurn_def split: if_splits)
  have 2: "alloc_inv w2" "held w2 = held w1"
    using alloc_inv_reapStaleConn [OF s(2) 1(1)] by auto
  have 3: "alloc_inv w3" "held w3 = held w2"
    using s(3) 2 alloc_inv_removeConn [of w2 cn w3] by (auto split: if_splits)
  have 4: "alloc_inv w4" "held w4 = held w3"
    using alloc_inv_freeTurn [OF s(4) 3(1)] s(4) by (auto simp: freeTurn_def split: if_splits)
  have "w' = w4 \<or> (\<exists>e. conn_Close w4 cn = Return (e, w'))"
    using assms(1) s(1-4) by (auto simp: reap_iter_def split: outcome.splits if_splits)
  then show ?thesis
    using 1 2 3 4 alloc_inv_conn_Close [of w4 cn _ w']
    by (auto simp: conn_Close_def split: option.splits if_splits)
qed

lemma alloc_inv_ReapStaleConns_loop:
  "ReapStaleConns_loop n w = Return (m, w') \<Longrightarrow> alloc_inv w \<Longrightarrow> alloc_inv w' \<and> held w' = held w"
proof (induction n w rule: ReapStaleConns_loop.induct)
  case (1 n tp)
  from "1.prems"(1) obtain cn tp1 where r: "reap_iter tp = Return (cn, tp1)"
    by (auto simp: ReapStaleConns_loop.simps [of n tp] split: outcome.splits)
  note i = alloc_inv_reap_iter [OF r "1.prems"(2)]
  show ?case
  proof (cases "cn = nil")
    case True
    then show ?thesis using "1.prems"(1) r i by (simp add: ReapStaleConns_loop.simps [of n tp])
  next
    case False
    then have "ReapStaleConns_loop (n + 1) tp1 = Return (m, w')"
      using "1.prems"(1) r by (simp add: ReapStaleConns_loop.simps [of n tp])
    then show ?thesis using "1.IH" [OF r refl False] i by simp
  qed
qed

lemma alloc_inv_reaper_tick:
  assumes "reaper_tick w = Return (b, w')" and "alloc_inv w"
  shows "alloc_inv w' \<and> held w' = held w"
proof (cases "pool_closed w")
  case True
  then show ?thesis using assms by (simp add: reaper_tick_def)
next
  case False
  then obtain n w1 where r: "ReapStaleConns_loop 0 w = Return (n, w1)"
    using assms(1) by (auto simp: reaper_tick_def ReapStaleConns_def split: outcome.splits)
  then have w': "w' = w1\<lparr>stats := (stats w1)\<lparr>StaleConns := StaleConns (stats w1) + of_nat n\<rparr>\<rparr>"
    using assms(1) False by (simp add: reaper_tick_def ReapStaleConns_def)
  show ?thesis
    using alloc_inv_ReapStaleConns_loop [OF r assms(2)] unfolding w' by (simp add: alloc_inv_def)
qed

lemma alloc_inv_close_all:
  "close_all cns fe w = Return (e, w') \<Longrightarrow> alloc_inv w \<Longrightarrow>
   alloc_inv w' \<and> held w' = held w"
proof (induction cns arbitrary: fe w)
  case Nil
  then show ?case by simp
next
  case (Cons cn cns)
  from Cons.prems(1) obtain err w1 where c: "conn_Close w cn = Return (err, w1)"
    by (auto split: outcome.splits)
  have "alloc_inv w1" "held w1 = held w"
    using alloc_inv_conn_Close [OF c Cons.prems(2)] c
    by (auto simp: conn_Close_def split: option.splits if_splits)
  then show ?case using Cons.IH [of _ w1] Cons.prems(1) c by auto
qed

lemma alloc_inv_Close:
  assumes "Close w = Return (e, w')" and "alloc_inv w"
  shows "alloc_inv w' \<and> held w' = held w"
proof (cases "closed_flag w = 0")
  case False
  then show ?thesis using assms by (simp add: Close_def)
next
  case True
  then obtain w1 where c: "close_all (conns w) None (w\<lparr>closed_flag := 1\<rparr>) = Return (e, w1)"
    and w': "w' = w1\<lparr>conns := [], poolSize := 0, idleConns := [], idleConnsLen := 0\<rparr>"
    using assms(1) by (auto simp: Close_def split: outcome.splits)
  have "alloc_inv (w\<lparr>closed_flag := 1\<rparr>)"
    using assms(2) by (simp add: alloc_inv_def)
  then have "alloc_inv w1" "held w1 = held w"
    using alloc_inv_close_all [OF c] by auto
  then show ?thesis unfolding w' by (simp add: alloc_inv_def)
qed

lemma alloc_inv_addIdleConn:
  assumes "alloc_inv w"
  shows "alloc_inv (addIdleConn w d) \<and> held (addIdleConn w d) = held w"
proof -
  obtain c0 e0 w0 where n: "newConn w True d = (c0, e0, w0)"
    by (cases "newConn w True d") auto
  note i = alloc_inv_newConn [OF n assms]
  show ?thesis
  proof (cases e0)
    case (Some a)
    then show ?thesis using n i by (simp add: addIdleConn_def)
  next
    case None
    have "alloc_inv (w0\<lparr>conns := conns w0 @ [c0], idleConns := idleConns w0 @ [c0]\<rparr>)"
      using i by (cases "c0 = nil") (auto simp: alloc_inv_def)
    then show ?thesis using n i None by (simp add: addIdleConn_def)
  qed
qed

lemma alloc_inv_step:
  assumes "step w ev = Return w'" and "alloc_inv w"
  shows "alloc_inv w'"
proof (cases ev)
  case (EGet d)
  then obtain cn e w1 where g: "Get w d = Return (cn, e, w1)"
    and w': "w' = (if cn \<noteq> nil then w1\<lparr>held := cn # held w1\<rparr> else w1)"
    using assms(1) by (auto split: outcome.splits)
  show ?thesis using alloc_inv_Get [OF g assms(2)] unfolding w' by (auto simp: alloc_inv_def)
next
  case (EPut cn)
  then obtain w1 where g: "Put w cn = Return w1" and w': "w' = w1\<lparr>held := remove1 cn (held w1)\<rparr>"
    using assms(1) by (auto split: outcome.splits)
  show ?thesis using alloc_inv_Put [OF g assms(2)] unfolding w'
    by (auto simp: alloc_inv_def dest: notin_set_remove1)
next
  case (ERemove cn)
  then obtain w1 where g: "Remove w cn = Return w1" and w': "w' = w1\<lparr>held := remove1 cn (held w1)\<rparr>"
    using assms(1) by (auto split: outcome.splits)
  show ?thesis using alloc_inv_Remove [OF g assms(2)] unfolding w'
    by (auto simp: alloc_inv_def dest: notin_set_remove1)
next
  case EReaper
  then obtain b w1 where g: "reaper_tick w = Return (b, w1)"
    and w': "w' = (if b then w1\<lparr>reaper_running := reaper_running w1 - 1\<rparr> else w1)"
    using assms(1) by (auto split: outcome.splits)
  show ?thesis using alloc_inv_reaper_tick [OF g assms(2)] unfolding w' by (auto simp: alloc_inv_def)
next
  case (EAddIdle d)
  then have w': "w' = (addIdleConn w d)\<lparr>addIdle_running := addIdle_running (addIdleConn w d) - 1\<rparr>"
    using assms(1) by (simp add: Let_def)
  show ?thesis using alloc_inv_addIdleConn [OF assms(2), of d] unfolding w' by (auto simp: alloc_inv_def)
next
  case (ETryDial d)
  then obtain b w1 where g: "tryDial_iter w d = Return (b, w1)"
    and w': "w' = (if b then w1\<lparr>tryDial_running := tryDial_running w1 - 1\<rparr> else w1)"
    using assms(1) by (auto split: outcome.splits)
  show ?thesis using alloc_inv_tryDial_iter [OF g assms(2)] unfolding w' by (auto simp: alloc_inv_def)
next
  case EClose
  then obtain e where g: "Close w = Return (e, w')"
    using assms(1) by (auto split: outcome.splits)
  show ?thesis using alloc_inv_Close [OF g assms(2)] by simp
next
  case (ETick n)
  then show ?thesis using assms by (auto simp: alloc_inv_def)
qed

lemma run_induct_inv:
  assumes "run w evs = Some w'" and "P w" and "\<And>w ev w'. P w \<Longrightarrow> enabled w ev \<Longrightarrow> step w ev = Return w' \<Longrightarrow> P w'"
  shows "P w'"
  using assms(1,2)
proof (induction evs arbitrary: w)
  case Nil
  then show ?case by simp
next
  case (Cons ev evs)
  then show ?case using assms(3) by (auto split: if_splits outcome.splits)
qed

lemma minIdle_loop_fields [simp]:
  "opt (minIdle_loop n w) = opt w"
  "conns (minIdle_loop n w) = conns w"
  "idleConns (minIdle_loop n w) = idleConns w"
  "heap (minIdle_loop n w) = heap w"
  "nextAddr (minIdle_loop n w) = nextAddr w"
  "held (minIdle_loop n w) = held w"
  "closed_flag (minIdle_loop n w) = closed_flag w"
  "queue (minIdle_loop n w) = queue w"
  "dialErrorsNum (minIdle_loop n w) = dialErrorsNum w"
  "lastDialError (minIdle_loop n w) = lastDialError w"
  "stats (minIdle_loop n w) = stats w"
  "clock (minIdle_loop n w) = clock w"
  "tryDial_running (minIdle_loop n w) = tryDial_running w"
  "reaper_running (minIdle_loop n w) = reaper_running w"
  by (induction n arbitrary: w; simp)+

lemma alloc_inv_NewThriftConnPool: "NewThriftConnPool o0 = Return w \<Longrightarrow> alloc_inv w"
  by (auto simp: NewThriftConnPool_def Let_def alloc_inv_def split: if_splits)

section \<open>What a call leaves alone\<close>

lemma frame_refl [simp]: "frame w w"
  by (simp add: frame_def)

lemma frame_trans: "frame w w1 \<Longrightarrow> frame w1 w2 \<Longrightarrow> frame w w2"
  by (simp add: frame_def)

lemma frame_dials: "frame w w' \<Longrightarrow> dials w w'"
  by (simp add: frame_def dials_def)

lemma frame_then_dials: "frame w w1 \<Longrightarrow> dials w1 w2 \<Longrightarrow> dials w w2"
  by (auto simp: frame_def dials_def pool_closed_def cap32_def)

lemma dials_then_frame: "dials w w1 \<Longrightarrow> frame w1 w2 \<Longrightarrow> dials w w2"
  by (auto simp: frame_def dials_def pool_closed_def cap32_def)

lemma frame_conn_Close: "conn_Close w cn = Return (e, w1) \<Longrightarrow> frame w w1"
  by (auto simp: conn_Close_def frame_def split: option.splits if_splits)

lemma frame_UpdateUsedTime: "UpdateUsedTime w cn = Return w1 \<Longrightarrow> frame w w1"
  by (auto simp: UpdateUsedTime_def frame_def split: option.splits)

lemma frame_getTurn: "getTurn w = Return w1 \<Longrightarrow> frame w w1"
  by (auto simp: getTurn_def frame_def split: if_splits)

lemma frame_freeTurn: "freeTurn w = Return w1 \<Longrightarrow> frame w w1"
  by (auto simp: freeTurn_def frame_def split: if_splits)

lemma frame_waitTurn: "waitTurn w = (e, w1) \<Longrightarrow> frame w w1"
  by (auto simp: waitTurn_def frame_def split: if_splits)

lemma frame_checkMinIdleConns [simp]: "frame w (checkMinIdleConns w)"
  by (simp add: frame_def)

lemma frame_popIdle: "popIdle w = (cn, w1) \<Longrightarrow> frame w w1"
  by (auto simp: popIdle_def Let_def frame_def split: if_splits)

lemma frame_removeConn: "removeConn w cn = Return w1 \<Longrightarrow> frame w w1"
  by (auto simp: removeConn_def Let_def frame_def length_remove1 split: option.splits if_splits)

lemma frame_CloseConn:
  assumes "CloseConn w cn = Return (e, w1)"
  shows "frame w w1"
proof -
  from assms obtain w0 where "removeConn w cn = Return w0" "conn_Close w0 cn = Return (e, w1)"
    by (auto simp: CloseConn_def split: outcome.splits)
  then show ?thesis using frame_removeConn frame_conn_Close frame_trans by blast
qed

lemma frame_Remove:
  assumes "Remove w cn = Return w1"
  shows "frame w w1"
proof -
  from assms obtain w0 w2 e where "removeConn w cn = Return w0" "freeTurn w0 = Return w2"
    "conn_Close w2 cn = Return (e, w1)"
    by (auto simp: Remove_def split: outcome.splits)
  then show ?thesis by (metis frame_removeConn frame_freeTurn frame_conn_Close frame_trans)
qed

lemma frame_Put:
  assumes "Put w cn = Return w1"
  shows "frame w w1"
proof -
  from assms obtain c where c: "heap w cn = Some c"
    by (auto simp: Put_def split: option.splits)
  show ?thesis
  proof (cases "pooled c")
    case False
    then show ?thesis using assms c frame_Remove by (simp add: Put_def)
  next
    case True
    then obtain w0 where u: "UpdateUsedTime w cn = Return w0"
      and f: "freeTurn (w0\<lparr>idleConns := idleConns w0 @ [cn], idleConnsLen := idleConnsLen w0 + 1\<rparr>) = Return w1"
      using assms c by (auto simp: Put_def split: outcome.splits)
    have "frame w0 (w0\<lparr>idleConns := idleConns w0 @ [cn], idleConnsLen := idleConnsLen w0 + 1\<rparr>)"
      by (simp add: frame_def)
    then show ?thesis
      using frame_UpdateUsedTime [OF u] frame_freeTurn [OF f] frame_trans by blast
  qed
qed

lemma frame_reapStaleConn: "reapStaleConn w = Return (cn, w1) \<Longrightarrow> frame w w1"
  by (auto simp: reapStaleConn_def Let_def frame_def split: if_splits outcome.splits)

lemma frame_reap_iter:
  assumes "reap_iter w = Return (cn, w')"
  shows "frame w w'"
proof -
  from assms obtain w1 w2 w3 w4 where
    s: "getTurn w = Return w1" "reapStaleConn w1 = Return (cn, w2)"
       "(if cn \<noteq> nil then removeConn w2 cn else Return w2) = Return w3"
       "freeTurn w3 = Return w4"
    by (auto simp: reap_iter_def split: outcome.splits if_splits)
  have c: "w' = w4 \<or> (\<exists>e. conn_Close w4 cn = Return (e, w'))"
    using assms s by (auto simp: reap_iter_def split: outcome.splits if_splits)
  have "frame w2 w3"
    using s(3) frame_removeConn [of w2 cn w3] by (auto split: if_splits)
  moreover have "frame w4 w'"
    using c frame_conn_Close by auto
  ultimately show ?thesis
    by (metis frame_getTurn [OF s(1)] frame_reapStaleConn [OF s(2)] frame_freeTurn [OF s(4)]
      frame_trans)
qed

lemma frame_ReapStaleConns_loop: "ReapStaleConns_loop n w = Return (m, w') \<Longrightarrow> frame w w'"
proof (induction n w rule: ReapStaleConns_loop.induct)
  case (1 n tp)
  from "1.prems" obtain cn tp1 where r: "reap_iter tp = Return (cn, tp1)"
    by (auto simp: ReapStaleConns_loop.simps [of n tp] split: outcome.splits)
  show ?case
  proof (cases "cn = nil")
    case True
    then show ?thesis
      using "1.prems" r frame_reap_iter [OF r] by (simp add: ReapStaleConns_loop.simps [of n tp])
  next
    case False
    then have "ReapStaleConns_loop (n + 1) tp1 = Return (m, w')"
      using "1.prems" r by (simp add: ReapStaleConns_loop.simps [of n tp])
    then show ?thesis
      using "1.IH" [OF r refl False] frame_reap_iter [OF r] frame_trans by blast
  qed
qed

lemma frame_reaper_tick:
  assumes "reaper_tick w = Return (b, w')"
  shows "frame w w'"
proof (cases "pool_closed w")
  case True
  then show ?thesis using assms by (simp add: reaper_tick_def)
next
  case False
  then obtain n w1 where r: "ReapStaleConns_loop 0 w = Return (n, w1)"
    using assms by (auto simp: reaper_tick_def ReapStaleConns_def split: outcome.splits)
  then have w': "w' = w1\<lparr>stats := (stats w1)\<lparr>StaleConns := StaleConns (stats w1) + of_nat n\<rparr>\<rparr>"
    using assms False by (simp add: reaper_tick_def ReapStaleConns_def)
  have "frame w1 w'" unfolding w' by (simp add: frame_def)
  then show ?thesis using frame_ReapStaleConns_loop [OF r] frame_trans by blast
qed

lemma frame_close_all: "close_all cns fe w = Return (e, w') \<Longrightarrow> frame w w'"
proof (induction cns arbitrary: fe w)
  case Nil
  then show ?case by simp
next
  case (Cons cn cns)
  from Cons.prems obtain err w1 where c: "conn_Close w cn = Return (err, w1)"
    by (auto split: outcome.splits)
  then have "close_all cns (if err \<noteq> None \<and> fe = None then err else fe) w1 = Return (e, w')"
    using Cons.prems by simp
  then show ?case using Cons.IH frame_conn_Close [OF c] frame_trans by blast
qed

lemma newConn_cases:
  "pool_closed w \<Longrightarrow> newConn w p d = (nil, Some ErrClosed, w)"
  "\<not> pool_closed w \<Longrightarrow> cap32 w \<le> dialErrorsNum w \<Longrightarrow> newConn w p d = (nil, lastDialError w, w)"
  "\<not> pool_closed w \<Longrightarrow> \<not> cap32 w \<le> dialErrorsNum w \<Longrightarrow>
   newConn w p (DialError k) =
     (nil, Some (ExtError k),
      (if dialErrorsNum w + 1 = cap32 w
       then w\<lparr>lastDialError := Some (ExtError k), dialErrorsNum := dialErrorsNum w + 1,
              tryDial_running := Suc (tryDial_running w)\<rparr>
       else w\<lparr>lastDialError := Some (ExtError k), dialErrorsNum := dialErrorsNum w + 1\<rparr>))"
  "\<not> pool_closed w \<Longrightarrow> \<not> cap32 w \<le> dialErrorsNum w \<Longrightarrow>
   newConn w p (DialOK ce) =
     (nextAddr w, None,
      w\<lparr>heap := (heap w)(nextAddr w \<mapsto>
            \<lparr>Endpoint = Addr (opt w), closed = False, socket = ce, usedTime = clock w,
             createTime = clock w, pooled = p\<rparr>),
         nextAddr := Suc (nextAddr w)\<rparr>)"
  by (simp_all add: newConn_def cap32_def NewThriftConn_def setLastDialError_def
      getLastDialError_def Let_def)

lemma dials_newConn:
  assumes "newConn w p d = (cn, e, w1)"
  shows "dials w w1 \<and> conns w1 = conns w"
proof (cases "pool_closed w")
  case True
  then show ?thesis using assms newConn_cases(1) [of w p d] by (simp add: dials_def)
next
  case False
  show ?thesis
  proof (cases "cap32 w \<le> dialErrorsNum w")
    case True
    then show ?thesis using assms False newConn_cases(2) [of w p d] by (simp add: dials_def)
  next
    case nt: False
    show ?thesis
    proof (cases d)
      case (DialError k)
      then show ?thesis
        using assms False nt newConn_cases(3) [of w p k]
        by (auto simp: dials_def cap32_def split: if_splits)
    next
      case (DialOK ce)
      then show ?thesis
        using assms False nt newConn_cases(4) [of w p ce]
        by (auto simp: dials_def)
    qed
  qed
qed

lemma dials_NewConn:
  assumes "NewConn w p d = Return (cn, e, w1)"
  shows "dials w w1"
proof -
  obtain c0 e0 w0 where n: "newConn w p d = (c0, e0, w0)"
    by (cases "newConn w p d") auto
  note i = dials_newConn [OF n]
  show ?thesis
  proof (cases e0)
    case (Some e1)
    then show ?thesis using assms n i NewConn_cases(1) [of w p d c0 e1 w0] by simp
  next
    case None
    then have nc: "\<not> pool_closed w"
      using n newConn_cases(1) [of w p d] by auto
    note n0 = n [unfolded None]
    consider (plain) "\<not> p" | (pooled) "p" "poolSize w0 < PoolSize (opt w0)"
      | (overflow) x where "p" "\<not> poolSize w0 < PoolSize (opt w0)" "heap w0 c0 = Some x"
      | (panic) "p" "\<not> poolSize w0 < PoolSize (opt w0)" "heap w0 c0 = None"
      by (cases "heap w0 c0") auto
    then have "opt w1 = opt w0 \<and> closed_flag w1 = closed_flag w0 \<and>
               dialErrorsNum w1 = dialErrorsNum w0 \<and> lastDialError w1 = lastDialError w0 \<and>
               tryDial_running w1 = tryDial_running w0"
    proof cases
      case plain
      then show ?thesis using assms NewConn_cases(2) [OF n0] by auto
    next
      case pooled
      then show ?thesis using assms NewConn_cases(3) [OF n0] by auto
    next
      case overflow
      then show ?thesis using assms NewConn_cases(4) [OF n0] by auto
    next
      case panic
      then show ?thesis using assms NewConn_cases(5) [OF n0] by simp
    qed
    then show ?thesis using i nc by (auto simp: dials_def)
  qed
qed

lemma dials_Get_miss:
  assumes "Get_miss w d = Return (cn, e, w1)"
  shows "dials w w1"
proof -
  let ?w = "w\<lparr>stats := (stats w)\<lparr>Misses := Misses (stats w) + 1\<rparr>\<rparr>"
  have a: "frame w ?w"
    by (simp add: frame_def)
  from assms obtain c2 e2 w2 where n: "NewConn ?w True d = Return (c2, e2, w2)"
    by (auto simp: Get_miss_def Let_def split: outcome.splits)
  have d2: "dials w w2"
    using frame_then_dials [OF a dials_NewConn [OF n]] .
  show ?thesis
  proof (cases "e2 = None")
    case True
    then show ?thesis using assms n d2 by (auto simp: Get_miss_def Let_def)
  next
    case False
    then obtain w3 where f: "freeTurn w2 = Return w3" "w1 = w3"
      using assms n by (auto simp: Get_miss_def Let_def split: outcome.splits)
    then show ?thesis using dials_then_frame [OF d2 frame_freeTurn [OF f(1)]] by simp
  qed
qed

lemma dials_Get_loop: "Get_loop w d = Return (cn, e, w') \<Longrightarrow> dials w w'"
proof (induction w d rule: Get_loop.induct)
  case (1 tp d)
  obtain c tp1 where p: "popIdle tp = (c, tp1)"
    by (cases "popIdle tp") auto
  note i = frame_popIdle [OF p]
  show ?case
  proof (cases "c = nil")
    case True
    then have "Get_miss tp1 d = Return (cn, e, w')"
      using "1.prems" p by (simp add: Get_loop.simps [of tp d])
    then show ?thesis using frame_then_dials [OF i dials_Get_miss] by simp
  next
    case False
    then obtain stale where s: "isStaleConn tp1 c = Return stale"
      using "1.prems" p by (auto simp: Get_loop.simps [of tp d] split: outcome.splits)
    show ?thesis
    proof (cases stale)
      case False
      then have "w' = tp1\<lparr>stats := (stats tp1)\<lparr>Hits := Hits (stats tp1) + 1\<rparr>\<rparr>"
        using "1.prems" p s \<open>c \<noteq> nil\<close> by (simp add: Get_loop.simps [of tp d])
      then have "frame tp1 w'" by (simp add: frame_def)
      then show ?thesis using frame_dials [OF frame_trans [OF i]] by simp
    next
      case True
      then obtain e2 tp2 where c: "CloseConn tp1 c = Return (e2, tp2)"
        and g: "Get_loop tp2 d = Return (cn, e, w')"
        using "1.prems" p s \<open>c \<noteq> nil\<close>
        by (auto simp: Get_loop.simps [of tp d] split: outcome.splits)
      have "dials tp2 w'"
        using "1.IH" [OF p [symmetric] \<open>c \<noteq> nil\<close> s True c refl g] .
      then show ?thesis
        using frame_then_dials [OF frame_trans [OF i frame_CloseConn [OF c]]] by simp
    qed
  qed
qed

lemma dials_Get:
  assumes "Get w d = Return (cn, e, w')"
  shows "dials w w'"
proof (cases "pool_closed w")
  case True
  then show ?thesis using assms by (auto simp: Get_def dials_def)
next
  case False
  obtain e1 w1 where wt: "waitTurn w = (e1, w1)"
    by (cases "waitTurn w") auto
  note f = frame_waitTurn [OF wt]
  show ?thesis
  proof (cases "e1 = None")
    case True
    then have "Get_loop w1 d = Return (cn, e, w')"
      using assms False wt by (simp add: Get_def)
    then show ?thesis using frame_then_dials [OF f dials_Get_loop] by simp
  next
    case False
    then show ?thesis using assms \<open>\<not> pool_closed w\<close> wt frame_dials [OF f]
      by (auto simp: Get_def)
  qed
qed

lemma dials_addIdleConn: "dials w (addIdleConn w d)"
proof -
  obtain c0 e0 w0 where n: "newConn w True d = (c0, e0, w0)"
    by (cases "newConn w True d") auto
  note i = dials_newConn [OF n]
  show ?thesis
  proof (cases e0)
    case (Some a)
    then show ?thesis using n i by (simp add: addIdleConn_def)
  next
    case None
    then have nc: "\<not> pool_closed w"
      using n newConn_cases(1) [of w True d] by auto
    then show ?thesis using n i None by (simp add: addIdleConn_def dials_def)
  qed
qed

lemma tryDial_iter_cases:
  "pool_closed w \<Longrightarrow> tryDial_iter w d = Return (True, w)"
  "\<not> pool_closed w \<Longrightarrow>
   tryDial_iter w (DialError k) = Return (False, w\<lparr>lastDialError := Some (ExtError k)\<rparr>)"
  "\<not> pool_closed w \<Longrightarrow>
   tryDial_iter w (DialOK ce) =
     Return (True,
       w\<lparr>heap := (heap w)(nextAddr w \<mapsto>
            \<lparr>Endpoint = Addr (opt w), closed = True, socket = ce, usedTime = clock w,
             createTime = clock w, pooled = False\<rparr>),
         nextAddr := Suc (nextAddr w), dialErrorsNum := 0\<rparr>)"
  by (simp_all add: tryDial_iter_def NewThriftConn_def setLastDialError_def conn_Close_def)

lemma Close_cases:
  "closed_flag w \<noteq> 0 \<Longrightarrow> Close w = Return (Some ErrClosed, w)"
  "closed_flag w = 0 \<Longrightarrow> close_all (conns w) None (w\<lparr>closed_flag := 1\<rparr>) = Return (e, w1) \<Longrightarrow>
   Close w = Return (e, w1\<lparr>conns := [], poolSize := 0, idleConns := [], idleConnsLen := 0\<rparr>)"
  "closed_flag w = 0 \<Longrightarrow> close_all (conns w) None (w\<lparr>closed_flag := 1\<rparr>) = Panics \<Longrightarrow>
   Close w = Panics"
  by (simp_all add: Close_def)

lemma close_all_not_Blocks: "close_all cns fe w \<noteq> Blocks"
  by (induction cns arbitrary: fe w) (auto simp: conn_Close_def split: option.splits outcome.splits)

lemma breaker_inv_frame: "frame w w' \<Longrightarrow> breaker_inv w \<Longrightarrow> breaker_inv w'"
  by (simp add: frame_def breaker_inv_def cap32_def pool_closed_def)

lemma breaker_inv_dials:
  assumes "dials w w'" and "breaker_inv w"
  shows "breaker_inv w'"
proof -
  have same: "opt w' = opt w" "closed_flag w' = closed_flag w"
    using assms(1) by (auto simp: dials_def)
  consider (same) "dialErrorsNum w' = dialErrorsNum w" "lastDialError w' = lastDialError w"
      "tryDial_running w' = tryDial_running w"
    | (fail) "\<not> pool_closed w" "dialErrorsNum w < cap32 w" "dialErrorsNum w' = dialErrorsNum w + 1"
      "lastDialError w' \<noteq> None"
      "tryDial_running w' = tryDial_running w + (if dialErrorsNum w' = cap32 w then 1 else 0)"
    using assms(1) by (auto simp: dials_def)
  then show ?thesis
  proof cases
    case same
    then show ?thesis
      using assms(2) \<open>opt w' = opt w\<close> \<open>closed_flag w' = closed_flag w\<close>
      by (simp add: breaker_inv_def cap32_def pool_closed_def)
  next
    case fail
    have le: "dialErrorsNum w + 1 \<le> cap32 w"
      using fail(2) by (rule inc_le)
    have r0: "tryDial_running w = 0"
      using assms(2) fail(1,2) by (auto simp: breaker_inv_def)
    show ?thesis
      using assms(2) same fail le r0
      by (auto simp: breaker_inv_def cap32_def pool_closed_def)
  qed
qed

lemma dials_field_update [simp]:
  "dials w (w'\<lparr>held := h\<rparr>) = dials w w'"
  "dials w (w'\<lparr>reaper_running := r\<rparr>) = dials w w'"
  "dials w (w'\<lparr>addIdle_running := a\<rparr>) = dials w w'"
  "dials w (w'\<lparr>clock := t\<rparr>) = dials w w'"
  by (simp_all add: dials_def)

lemma step_dials:
  assumes "step w ev = Return w'" and "\<forall>d. ev \<noteq> ETryDial d" and "ev \<noteq> EClose"
  shows "dials w w'"
proof (cases ev)
  case (EGet d)
  then obtain cn e w1 where g: "Get w d = Return (cn, e, w1)"
    and w': "w' = (if cn \<noteq> nil then w1\<lparr>held := cn # held w1\<rparr> else w1)"
    using assms(1) by (auto split: outcome.splits)
  show ?thesis using dials_Get [OF g] unfolding w' by simp
next
  case (EPut cn)
  then obtain w1 where g: "Put w cn = Return w1" and w': "w' = w1\<lparr>held := remove1 cn (held w1)\<rparr>"
    using assms(1) by (auto split: outcome.splits)
  show ?thesis using frame_dials [OF frame_Put [OF g]] unfolding w' by simp
next
  case (ERemove cn)
  then obtain w1 where g: "Remove w cn = Return w1" and w': "w' = w1\<lparr>held := remove1 cn (held w1)\<rparr>"
    using assms(1) by (auto split: outcome.splits)
  show ?thesis using frame_dials [OF frame_Remove [OF g]] unfolding w' by simp
next
  case EReaper
  then obtain b w1 where g: "reaper_tick w = Return (b, w1)"
    and w': "w' = (if b then w1\<lparr>reaper_running := reaper_running w1 - 1\<rparr> else w1)"
    using assms(1) by (auto split: outcome.splits)
  show ?thesis using frame_dials [OF frame_reaper_tick [OF g]] unfolding w' by simp
next
  case (EAddIdle d)
  then have w': "w' = (addIdleConn w d)\<lparr>addIdle_running := addIdle_running (addIdleConn w d) - 1\<rparr>"
    using assms(1) by (simp add: Let_def)
  show ?thesis using dials_addIdleConn [of w d] unfolding w' by simp
next
  case (ETryDial d)
  then show ?thesis using assms(2) by simp
next
  case EClose
  then show ?thesis using assms(3) by simp
next
  case (ETick n)
  then show ?thesis using assms(1) by (auto simp: dials_def)
qed

lemma step_Close:
  assumes "step w EClose = Return w'"
  shows "opt w' = opt w \<and> dialErrorsNum w' = dialErrorsNum w \<and> lastDialError w' = lastDialError w \<and>
         tryDial_running w' = tryDial_running w \<and>
         (if closed_flag w = 0 then closed_flag w' = 1 \<and> conns w' = [] else w' = w)"
proof (cases "closed_flag w = 0")
  case False
  then show ?thesis using assms Close_cases(1) [of w] by simp
next
  case True
  show ?thesis
  proof (cases "close_all (conns w) None (w\<lparr>closed_flag := 1\<rparr>)")
    case (Return r)
    obtain e w1 where r: "r = (e, w1)" by (cases r)
    have "frame (w\<lparr>closed_flag := 1\<rparr>) w1"
      using frame_close_all Return r by blast
    then show ?thesis
      using assms True Close_cases(2) [OF True Return [unfolded r]] by (auto simp: frame_def)
  next
    case Panics
    then show ?thesis using assms True Close_cases(3) [OF True] by simp
  next
    case Blocks
    then show ?thesis using close_all_not_Blocks by blast
  qed
qed

lemma step_TryDial:
  assumes "step w (ETryDial d) = Return w'"
  shows "opt w' = opt w \<and> closed_flag w' = closed_flag w \<and> conns w' = conns w \<and>
         (if pool_closed w
          then dialErrorsNum w' = dialErrorsNum w \<and> lastDialError w' = lastDialError w \<and>
               tryDial_running w' = tryDial_running w - 1
          else (case d of
                  DialError k \<Rightarrow> dialErrorsNum w' = dialErrorsNum w \<and> lastDialError w' = Some (ExtError k) \<and>
                     tryDial_running w' = tryDial_running w
                | DialOK ce \<Rightarrow> dialErrorsNum w' = 0 \<and> lastDialError w' = lastDialError w \<and>
                     tryDial_running w' = tryDial_running w - 1))"
proof (cases "pool_closed w")
  case True
  then show ?thesis using assms tryDial_iter_cases(1) [of w d] by auto
next
  case False
  then show ?thesis
    using assms tryDial_iter_cases(2,3) [OF False] by (cases d) auto
qed

lemma opt_step: "step w ev = Return w' \<Longrightarrow> opt w' = opt w"
  using step_dials [of w ev w'] step_Close [of w w'] step_TryDial [of w _ w']
  by (cases ev) (auto simp: dials_def)

lemma opt_run: "run w evs = Some w' \<Longrightarrow> opt w' = opt w"
  by (induction evs arbitrary: w) (auto split: if_splits outcome.splits dest: opt_step)

lemma opt_NewThriftConnPool: "NewThriftConnPool o0 = Return w \<Longrightarrow> opt w = o0"
  by (auto simp: NewThriftConnPool_def Let_def split: if_splits)

lemma opt_run_from: "run_from o0 evs = Some w \<Longrightarrow> opt w = o0"
  by (auto simp: run_from_def split: outcome.splits dest: opt_run opt_NewThriftConnPool)

lemma breaker_inv_step:
  assumes "step w ev = Return w'" and "enabled w ev" and "breaker_inv w"
  shows "breaker_inv w'"
proof (cases "(\<forall>d. ev \<noteq> ETryDial d) \<and> ev \<noteq> EClose")
  case True
  then show ?thesis using step_dials [OF assms(1)] breaker_inv_dials assms(3) by blast
next
  case False
  then consider (cl) "ev = EClose" | (td) d where "ev = ETryDial d" by auto
  then show ?thesis
  proof cases
    case cl
    then show ?thesis
      using step_Close [of w w'] assms(1,3)
      by (auto simp: breaker_inv_def cap32_def pool_closed_def split: if_splits)
  next
    case td
    then have r: "0 < tryDial_running w" using assms(2) by simp
    show ?thesis
      using step_TryDial [of w d w'] assms(1,3) td r
      by (cases d) (auto simp: breaker_inv_def cap32_def pool_closed_def split: if_splits)
  qed
qed

lemma breaker_inv_NewThriftConnPool:
  "NewThriftConnPool o0 = Return w \<Longrightarrow> word_of_int (PoolSize o0) \<noteq> (0 :: 32 word) \<Longrightarrow> breaker_inv w"
  by (auto simp: NewThriftConnPool_def Let_def breaker_inv_def cap32_def pool_closed_def
      split: if_splits)



section \<open>The idle counter never catches up\<close>

lemma excess_checkMinIdleConns [simp]: "idle_excess (checkMinIdleConns w) = idle_excess w"
  by (simp add: idle_excess_def checkMinIdleConns_def)

lemma excess_conn_Close: "conn_Close w cn = Return (e, w1) \<Longrightarrow> idle_excess w1 = idle_excess w"
  by (auto simp: conn_Close_def idle_excess_def split: option.splits if_splits)

lemma excess_UpdateUsedTime: "UpdateUsedTime w cn = Return w1 \<Longrightarrow> idle_excess w1 = idle_excess w"
  by (auto simp: UpdateUsedTime_def idle_excess_def split: option.splits)

lemma excess_getTurn: "getTurn w = Return w1 \<Longrightarrow> idle_excess w1 = idle_excess w"
  by (auto simp: getTurn_def idle_excess_def split: if_splits)

lemma excess_freeTurn: "freeTurn w = Return w1 \<Longrightarrow> idle_excess w1 = idle_excess w"
  by (auto simp: freeTurn_def idle_excess_def split: if_splits)

lemma excess_waitTurn: "waitTurn w = (e, w1) \<Longrightarrow> idle_excess w1 = idle_excess w"
  by (auto simp: waitTurn_def idle_excess_def split: if_splits)

lemma excess_popIdle:
  assumes "popIdle w = (cn, w1)"
  shows "idle_excess w1 = idle_excess w"
proof (cases "idleConns w" rule: rev_cases)
  case Nil
  then show ?thesis using assms by (simp add: popIdle_Nil)
next
  case (snoc xs c)
  then show ?thesis using assms by (auto simp: popIdle_snoc) (simp add: idle_excess_def)
qed

lemma excess_removeConn: "removeConn w cn = Return w1 \<Longrightarrow> idle_excess w1 = idle_excess w"
  by (auto simp: removeConn_def Let_def split: option.splits if_splits) (simp_all add: idle_excess_def)

lemma excess_CloseConn:
  assumes "CloseConn w cn = Return (e, w1)"
  shows "idle_excess w1 = idle_excess w"
proof -
  from assms obtain w0 where "removeConn w cn = Return w0" "conn_Close w0 cn = Return (e, w1)"
    by (auto simp: CloseConn_def split: outcome.splits)
  then show ?thesis using excess_removeConn excess_conn_Close by metis
qed

lemma excess_Remove:
  assumes "Remove w cn = Return w1"
  shows "idle_excess w1 = idle_excess w"
proof -
  from assms obtain w0 w2 e where "removeConn w cn = Return w0" "freeTurn w0 = Return w2"
    "conn_Close w2 cn = Return (e, w1)"
    by (auto simp: Remove_def split: outcome.splits)
  then show ?thesis by (metis excess_removeConn excess_freeTurn excess_conn_Close)
qed

lemma excess_Put:
  assumes "Put w cn = Return w1"
  shows "idle_excess w1 = idle_excess w"
proof -
  from assms obtain c where c: "heap w cn = Some c"
    by (auto simp: Put_def split: option.splits)
  show ?thesis
  proof (cases "pooled c")
    case False
    then show ?thesis using assms c excess_Remove by (simp add: Put_def)
  next
    case True
    then obtain w0 where u: "UpdateUsedTime w cn = Return w0"
      and f: "freeTurn (w0\<lparr>idleConns := idleConns w0 @ [cn], idleConnsLen := idleConnsLen w0 + 1\<rparr>) = Return w1"
      using assms c by (auto simp: Put_def split: outcome.splits)
    have "idle_excess (w0\<lparr>idleConns := idleConns w0 @ [cn], idleConnsLen := idleConnsLen w0 + 1\<rparr>)
          = idle_excess w0"
      by (simp add: idle_excess_def)
    then show ?thesis
      using excess_UpdateUsedTime [OF u] excess_freeTurn [OF f] by simp
  qed
qed

lemma excess_reapStaleConn:
  assumes "reapStaleConn w = Return (cn, w1)"
  shows "idle_excess w1 = idle_excess w"
proof (cases "idleConns w")
  case Nil
  then show ?thesis using assms reapStaleConn_cases(1) [of w] by simp
next
  case (Cons c xs)
  show ?thesis
  proof (cases "isStaleConn w c")
    case (Return b)
    have "idle_excess (w\<lparr>idleConns := xs, idleConnsLen := idleConnsLen w - 1\<rparr>) = idle_excess w"
      using Cons by (simp add: idle_excess_def)
    then show ?thesis
      using assms Cons Return reapStaleConn_cases(2,3) [of w c xs] by (cases b) auto
  next
    case Panics
    then show ?thesis using assms Cons reapStaleConn_cases(4) [of w c xs] by simp
  next
    case Blocks
    then show ?thesis using isStaleConn_not_Blocks by blast
  qed
qed

lemma excess_reap_iter:
  assumes "reap_iter w = Return (cn, w')"
  shows "idle_excess w' = idle_excess w"
proof -
  from assms obtain w1 w2 w3 w4 where
    s: "getTurn w = Return w1" "reapStaleConn w1 = Return (cn, w2)"
       "(if cn \<noteq> nil then removeConn w2 cn else Return w2) = Return w3"
       "freeTurn w3 = Return w4"
    by (auto simp: reap_iter_def split: outcome.splits if_splits)
  have c: "w' = w4 \<or> (\<exists>e. conn_Close w4 cn = Return (e, w'))"
    using assms s by (auto simp: reap_iter_def split: outcome.splits if_splits)
  have "idle_excess w3 = idle_excess w2"
    using s(3) excess_removeConn [of w2 cn w3] by (auto split: if_splits)
  moreover have "idle_excess w' = idle_excess w4"
    using c excess_conn_Close by auto
  ultimately show ?thesis
    using excess_getTurn [OF s(1)] excess_reapStaleConn [OF s(2)] excess_freeTurn [OF s(4)]
    by simp
qed

lemma excess_ReapStaleConns_loop:
  "ReapStaleConns_loop n w = Return (m, w') \<Longrightarrow> idle_excess w' = idle_excess w"
proof (induction n w rule: ReapStaleConns_loop.induct)
  case (1 n tp)
  from "1.prems" obtain cn tp1 where r: "reap_iter tp = Return (cn, tp1)"
    by (auto simp: ReapStaleConns_loop.simps [of n tp] split: outcome.splits)
  show ?case
  proof (cases "cn = nil")
    case True
    then show ?thesis
      using "1.prems" r excess_reap_iter [OF r] by (simp add: ReapStaleConns_loop.simps [of n tp])
  next
    case False
    then have "ReapStaleConns_loop (n + 1) tp1 = Return (m, w')"
      using "1.prems" r by (simp add: ReapStaleConns_loop.simps [of n tp])
    then show ?thesis
      using "1.IH" [OF r refl False] excess_reap_iter [OF r] by simp
  qed
qed

lemma excess_reaper_tick:
  assumes "reaper_tick w = Return (b, w')"
  shows "idle_excess w' = idle_excess w"
proof (cases "pool_closed w")
  case True
  then show ?thesis using assms by (simp add: reaper_tick_def)
next
  case False
  then obtain n w1 where r: "ReapStaleConns_loop 0 w = Return (n, w1)"
    using assms by (auto simp: reaper_tick_def ReapStaleConns_def split: outcome.splits)
  then have w': "w' = w1\<lparr>stats := (stats w1)\<lparr>StaleConns := StaleConns (stats w1) + of_nat n\<rparr>\<rparr>"
    using assms False by (simp add: reaper_tick_def ReapStaleConns_def)
  have "idle_excess w' = idle_excess w1" unfolding w' by (simp add: idle_excess_def)
  then show ?thesis using excess_ReapStaleConns_loop [OF r] by simp
qed

lemma newConn_keeps_idle:
  assumes "newConn w p d = (cn, e, w1)"
  shows "idleConns w1 = idleConns w \<and> idleConnsLen w1 = idleConnsLen w \<and>
         addIdle_running w1 = addIdle_running w"
proof (cases "pool_closed w")
  case True
  then show ?thesis using assms newConn_cases(1) [of w p d] by simp
next
  case False
  show ?thesis
  proof (cases "cap32 w \<le> dialErrorsNum w")
    case True
    then show ?thesis using assms False newConn_cases(2) [of w p d] by simp
  next
    case nt: False
    show ?thesis
      using assms newConn_cases(3,4) [OF False nt, of p] by (cases d) (auto split: if_splits)
  qed
qed

lemma excess_NewConn:
  assumes "NewConn w p d = Return (cn, e, w1)"
  shows "idle_excess w1 = idle_excess w"
proof -
  obtain c0 e0 w0 where n: "newConn w p d = (c0, e0, w0)"
    by (cases "newConn w p d") auto
  have i: "idle_excess w0 = idle_excess w"
    using newConn_keeps_idle [OF n] by (simp add: idle_excess_def)
  show ?thesis
  proof (cases e0)
    case (Some e1)
    then show ?thesis using assms n i NewConn_cases(1) [of w p d c0 e1 w0] by simp
  next
    case None
    note n0 = n [unfolded None]
    consider (plain) "\<not> p" | (pooled) "p" "poolSize w0 < PoolSize (opt w0)"
      | (overflow) x where "p" "\<not> poolSize w0 < PoolSize (opt w0)" "heap w0 c0 = Some x"
      | (panic) "p" "\<not> poolSize w0 < PoolSize (opt w0)" "heap w0 c0 = None"
      by (cases "heap w0 c0") auto
    then have "idle_excess w1 = idle_excess w0"
    proof cases
      case plain
      then show ?thesis using assms NewConn_cases(2) [OF n0] by (auto simp: idle_excess_def)
    next
      case pooled
      then show ?thesis using assms NewConn_cases(3) [OF n0] by (auto simp: idle_excess_def)
    next
      case overflow
      then show ?thesis using assms NewConn_cases(4) [OF n0] by (auto simp: idle_excess_def)
    next
      case panic
      then show ?thesis using assms NewConn_cases(5) [OF n0] by simp
    qed
    then show ?thesis using i by simp
  qed
qed

lemma excess_Get_miss:
  assumes "Get_miss w d = Return (cn, e, w1)"
  shows "idle_excess w1 = idle_excess w"
proof -
  let ?w = "w\<lparr>stats := (stats w)\<lparr>Misses := Misses (stats w) + 1\<rparr>\<rparr>"
  have a: "idle_excess ?w = idle_excess w"
    by (simp add: idle_excess_def)
  from assms obtain c2 e2 w2 where n: "NewConn ?w True d = Return (c2, e2, w2)"
    by (auto simp: Get_miss_def Let_def split: outcome.splits)
  have d2: "idle_excess w2 = idle_excess w"
    using excess_NewConn [OF n] a by simp
  show ?thesis
  proof (cases "e2 = None")
    case True
    then show ?thesis using assms n d2 by (auto simp: Get_miss_def Let_def)
  next
    case False
    then obtain w3 where f: "freeTurn w2 = Return w3" "w1 = w3"
      using assms n by (auto simp: Get_miss_def Let_def split: outcome.splits)
    then show ?thesis using d2 excess_freeTurn [OF f(1)] by simp
  qed
qed

lemma excess_Get_loop: "Get_loop w d = Return (cn, e, w') \<Longrightarrow> idle_excess w' = idle_excess w"
proof (induction w d rule: Get_loop.induct)
  case (1 tp d)
  obtain c tp1 where p: "popIdle tp = (c, tp1)"
    by (cases "popIdle tp") auto
  note i = excess_popIdle [OF p]
  show ?case
  proof (cases "c = nil")
    case True
    then have "Get_miss tp1 d = Return (cn, e, w')"
      using "1.prems" p by (simp add: Get_loop.simps [of tp d])
    then show ?thesis using excess_Get_miss i by simp
  next
    case False
    then obtain stale where s: "isStaleConn tp1 c = Return stale"
      using "1.prems" p by (auto simp: Get_loop.simps [of tp d] split: outcome.splits)
    show ?thesis
    proof (cases stale)
      case False
      then have "w' = tp1\<lparr>stats := (stats tp1)\<lparr>Hits := Hits (stats tp1) + 1\<rparr>\<rparr>"
        using "1.prems" p s \<open>c \<noteq> nil\<close> by (simp add: Get_loop.simps [of tp d])
      then have "idle_excess w' = idle_excess tp1" by (simp add: idle_excess_def)
      then show ?thesis using i by simp
    next
      case True
      then obtain e2 tp2 where c: "CloseConn tp1 c = Return (e2, tp2)"
        and g: "Get_loop tp2 d = Return (cn, e, w')"
        using "1.prems" p s \<open>c \<noteq> nil\<close>
        by (auto simp: Get_loop.simps [of tp d] split: outcome.splits)
      have "idle_excess w' = idle_excess tp2"
        using "1.IH" [OF p [symmetric] \<open>c \<noteq> nil\<close> s True c refl g] .
      then show ?thesis
        using i excess_CloseConn [OF c] by simp
    qed
  qed
qed

lemma excess_Get:
  assumes "Get w d = Return (cn, e, w')"
  shows "idle_excess w' = idle_excess w"
proof (cases "pool_closed w")
  case True
  then show ?thesis using assms by (auto simp: Get_def)
next
  case False
  obtain e1 w1 where wt: "waitTurn w = (e1, w1)"
    by (cases "waitTurn w") auto
  note f = excess_waitTurn [OF wt]
  show ?thesis
  proof (cases "e1 = None")
    case True
    then have "Get_loop w1 d = Return (cn, e, w')"
      using assms False wt by (simp add: Get_def)
    then show ?thesis using f excess_Get_loop by simp
  next
    case False
    then show ?thesis using assms \<open>\<not> pool_closed w\<close> wt f
      by (auto simp: Get_def)
  qed
qed

lemma excess_addIdleConn: "idle_excess w - 1 \<le> idle_excess (addIdleConn w d)"
proof -
  obtain c0 e0 w0 where n: "newConn w True d = (c0, e0, w0)"
    by (cases "newConn w True d") auto
  note i = newConn_keeps_idle [OF n]
  show ?thesis
    using n i by (cases e0) (simp_all add: addIdleConn_def idle_excess_def)
qed

lemma addIdleConn_running [simp]: "addIdle_running (addIdleConn w d) = addIdle_running w"
proof -
  obtain c0 e0 w0 where n: "newConn w True d = (c0, e0, w0)"
    by (cases "newConn w True d") auto
  show ?thesis
    using n newConn_keeps_idle [OF n] by (cases e0) (simp_all add: addIdleConn_def)
qed

lemma excess_tryDial_iter:
  assumes "tryDial_iter w d = Return (b, w1)"
  shows "idle_excess w1 = idle_excess w"
proof (cases "pool_closed w")
  case True
  then show ?thesis using assms tryDial_iter_cases(1) [of w d] by simp
next
  case False
  show ?thesis
  proof (cases d)
    case (DialError k)
    then show ?thesis
      using assms tryDial_iter_cases(2) [OF False, of k] by (auto simp: idle_excess_def)
  next
    case (DialOK ce)
    then show ?thesis
      using assms tryDial_iter_cases(3) [OF False, of ce] by (auto simp: idle_excess_def)
  qed
qed

lemma excess_field_update [simp]:
  "idle_excess (w\<lparr>held := h\<rparr>) = idle_excess w"
  "idle_excess (w\<lparr>reaper_running := r\<rparr>) = idle_excess w"
  "idle_excess (w\<lparr>tryDial_running := a\<rparr>) = idle_excess w"
  "idle_excess (w\<lparr>clock := t\<rparr>) = idle_excess w"
  by (simp_all add: idle_excess_def)

lemma excess_step:
  assumes "step w ev = Return w'" and "enabled w ev" and "ev \<noteq> EClose"
  shows "idle_excess w \<le> idle_excess w'"
proof (cases ev)
  case (EGet d)
  then obtain cn e w1 where g: "Get w d = Return (cn, e, w1)"
    and w': "w' = (if cn \<noteq> nil then w1\<lparr>held := cn # held w1\<rparr> else w1)"
    using assms(1) by (auto split: outcome.splits)
  show ?thesis using excess_Get [OF g] unfolding w' by simp
next
  case (EPut cn)
  then obtain w1 where g: "Put w cn = Return w1" and w': "w' = w1\<lparr>held := remove1 cn (held w1)\<rparr>"
    using assms(1) by (auto split: outcome.splits)
  show ?thesis using excess_Put [OF g] unfolding w' by simp
next
  case (ERemove cn)
  then obtain w1 where g: "Remove w cn = Return w1" and w': "w' = w1\<lparr>held := remove1 cn (held w1)\<rparr>"
    using assms(1) by (auto split: outcome.splits)
  show ?thesis using excess_Remove [OF g] unfolding w' by simp
next
  case EReaper
  then obtain b w1 where g: "reaper_tick w = Return (b, w1)"
    and w': "w' = (if b then w1\<lparr>reaper_running := reaper_running w1 - 1\<rparr> else w1)"
    using assms(1) by (auto split: outcome.splits)
  show ?thesis using excess_reaper_tick [OF g] unfolding w' by simp
next
  case (EAddIdle d)
  then have w': "w' = (addIdleConn w d)\<lparr>addIdle_running := addIdle_running (addIdleConn w d) - 1\<rparr>"
    using assms(1) by (simp add: Let_def)
  have "0 < addIdle_running w" using assms(2) EAddIdle by simp
  then have "idle_excess w' = idle_excess (addIdleConn w d) + 1"
    unfolding w' by (simp add: idle_excess_def)
  then show ?thesis using excess_addIdleConn [of w d] by simp
next
  case (ETryDial d)
  then obtain b w1 where g: "tryDial_iter w d = Return (b, w1)"
    and w': "w' = (if b then w1\<lparr>tryDial_running := tryDial_running w1 - 1\<rparr> else w1)"
    using assms(1) by (auto split: outcome.splits)
  show ?thesis using excess_tryDial_iter [OF g] unfolding w' by simp
next
  case EClose
  then show ?thesis using assms(3) by simp
next
  case (ETick n)
  then show ?thesis using assms(1) by auto
qed

lemma excess_run:
  "run w evs = Some w' \<Longrightarrow> EClose \<notin> set evs \<Longrightarrow> idle_excess w \<le> idle_excess w'"
proof (induction evs arbitrary: w)
  case Nil
  then show ?case by simp
next
  case (Cons ev evs)
  from Cons.prems obtain w1 where s: "enabled w ev" "step w ev = Return w1" "run w1 evs = Some w'"
    by (auto split: if_splits outcome.splits)
  have "idle_excess w \<le> idle_excess w1"
    using excess_step [OF s(2,1)] Cons.prems(2) by auto
  moreover have "idle_excess w1 \<le> idle_excess w'"
    using Cons.IH [OF s(3)] Cons.prems(2) by simp
  ultimately show ?case by simp
qed

section \<open>Connections that are not pooled\<close>

lemma removeConn_unpooled:
  "heap w cn = Some c \<Longrightarrow> \<not> pooled c \<Longrightarrow> removeConn w cn = Return (w\<lparr>conns := remove1 cn (conns w)\<rparr>)"
  by (simp add: removeConn_def Let_def remove1_idem)

lemma Put_unpooled:
  assumes "heap w cn = Some c" and "\<not> pooled c" and "0 < queue w"
  shows "\<exists>w'. Put w cn = Return w' \<and> conns w' = remove1 cn (conns w) \<and>
           idleConns w' = idleConns w \<and> idleConnsLen w' = idleConnsLen w \<and>
           poolSize w' = poolSize w \<and> queue w' = queue w - 1 \<and>
           (\<exists>c'. heap w' cn = Some c' \<and> closed c')"
  using assms
  by (cases "closed c") (simp_all add: Put_def Remove_def removeConn_unpooled freeTurn_def conn_Close_def)

lemma idleConns_pooled_run:
  assumes "run_from o0 evs = Some v"
  shows "\<forall>a \<in> set (idleConns v). \<forall>x. heap v a = Some x \<longrightarrow> pooled x"
proof -
  from assms obtain w0 where w0: "NewThriftConnPool o0 = Return w0" "run w0 evs = Some v"
    by (auto simp: run_from_def split: outcome.splits)
  have "alloc_inv v"
    using w0(2) alloc_inv_NewThriftConnPool [OF w0(1)] alloc_inv_step
    by (rule run_induct_inv)
  then show ?thesis by (simp add: alloc_inv_def)
qed

text \<open>
  Claim C8. \<^verbatim>\<open>Put\<close> of a connection whose \<^verbatim>\<open>pooled\<close> is false, by a caller that
  holds a turn (the channel is not empty): the call returns, the connection is cut out of
  \<^verbatim>\<open>conns\<close>, one token leaves the channel, the connection is closed, and
  \<^verbatim>\<open>idleConns\<close> and its counter are as before. And in every world that a run leads to
  from a new pool, every connection in \<^verbatim>\<open>idleConns\<close> has \<^verbatim>\<open>pooled\<close> true.
\<close>

theorem Put_unpooled_discards:
  "(heap w cn = Some c \<and> \<not> pooled c \<and> 0 < queue w \<longrightarrow>
      (\<exists>w'. Put w cn = Return w' \<and> conns w' = remove1 cn (conns w) \<and>
            idleConns w' = idleConns w \<and> idleConnsLen w' = idleConnsLen w \<and>
            queue w' = queue w - 1 \<and> (\<exists>c'. heap w' cn = Some c' \<and> closed c'))) \<and>
   (run_from o0 evs = Some v \<longrightarrow>
      (\<forall>a \<in> set (idleConns v). \<forall>x. heap v a = Some x \<longrightarrow> pooled x))"
  using Put_unpooled [of w cn c] idleConns_pooled_run [of o0 evs v] by blast

theorem Put_unpooled_discards_witness:
  "map_option queue (run_from (pool_options 2 1 0 0) [EGet (DialOK None), EGet (DialOK None)]) = Some 2 \<and>
   conn_at (run_from (pool_options 2 1 0 0) [EGet (DialOK None), EGet (DialOK None)]) 2 = Some (False, False) \<and>
   (\<exists>w'. Put (the (run_from (pool_options 2 1 0 0) [EGet (DialOK None), EGet (DialOK None)])) 2 = Return w' \<and>
      conns w' = [1] \<and> idleConns w' = [] \<and> queue w' = 1 \<and> map_option closed (heap w' 2) = Some True) \<and>
   map_option idleConns (run_from (pool_options 2 1 0 0)
      [EGet (DialOK None), EGet (DialOK None), EPut 2, EPut 1]) = Some [1] \<and>
   conn_at (run_from (pool_options 2 1 0 0)
      [EGet (DialOK None), EGet (DialOK None), EPut 2, EPut 1]) 1 = Some (False, True)"
proof -
  let ?o = "pool_options 2 1 0 0"
  let ?r = "run_from ?o [EGet (DialOK None), EGet (DialOK None)]"
  let ?evs = "[EGet (DialOK None), EGet (DialOK None), EPut 2, EPut 1]"
  let ?c = "\<lparr>Endpoint = ''127.0.0.1:9898'', closed = False, socket = None, usedTime = 0,
             createTime = 0, pooled = False\<rparr>"
  let ?c1 = "\<lparr>Endpoint = ''127.0.0.1:9898'', closed = False, socket = None, usedTime = 0,
             createTime = 0, pooled = True\<rparr>"
  have h: "heap (the ?r) 2 = Some ?c" "\<not> pooled ?c" "0 < queue (the ?r)"
    "conns (the ?r) = [1, 2]" "idleConns (the ?r) = []" "queue (the ?r) = 2"
    by code_simp+
  have o: "map_option queue ?r = Some 2" "conn_at ?r 2 = Some (False, False)"
    by code_simp+
  have v: "\<not> Option.is_none (run_from ?o ?evs)" "idleConns (the (run_from ?o ?evs)) = [1]"
    "map_option idleConns (run_from ?o ?evs) = Some [1]"
    "map_option closed (heap (the (run_from ?o ?evs)) 1) = Some False"
    by code_simp+
  have v': "run_from ?o ?evs = Some (the (run_from ?o ?evs))"
    using v(1) by (simp add: Option.is_none_def)
  note t = Put_unpooled_discards [of "the ?r" 2 ?c ?o ?evs "the (run_from ?o ?evs)"]
  have 1: "\<exists>w'. Put (the ?r) 2 = Return w' \<and> conns w' = [1] \<and> idleConns w' = [] \<and> queue w' = 1 \<and>
              map_option closed (heap w' 2) = Some True"
    using t h by auto
  have "\<forall>x. heap (the (run_from ?o ?evs)) 1 = Some x \<longrightarrow> pooled x"
    using t v' v(2) by simp
  then have 2: "conn_at (run_from ?o ?evs) 1 = Some (False, True)"
    using v' v(4) by (cases "heap (the (run_from ?o ?evs)) 1") (auto simp: conn_at_def split: option.splits)
  show ?thesis using o 1 v(3) 2 by blast
qed

section \<open>Returning a connection to a closed pool\<close>

text \<open>
  Claim C2, evaluated on the code. A pool of capacity 1: a caller gets connection 1,
  \<^verbatim>\<open>Close\<close> runs (the flag is set, both lists are empty, the caller still holds the
  connection), and the caller returns it with \<^verbatim>\<open>Put\<close>. \<^verbatim>\<open>Put\<close> does not look at the
  flag: the connection, which \<^verbatim>\<open>Close\<close> has closed, is appended to \<^verbatim>\<open>idleConns\<close> of
  the closed pool and counted, while \<^verbatim>\<open>poolSize\<close> stays 0.
\<close>

theorem Put_after_Close_requeues:
  "map_option closed_flag (run_from (pool_options 1 0 0 0) [EGet (DialOK None), EClose]) = Some 1 \<and>
   map_option held (run_from (pool_options 1 0 0 0) [EGet (DialOK None), EClose]) = Some [1] \<and>
   map_option idleConns (run_from (pool_options 1 0 0 0) [EGet (DialOK None), EClose]) = Some [] \<and>
   map_option idleConns (run_from (pool_options 1 0 0 0) [EGet (DialOK None), EClose, EPut 1]) = Some [1] \<and>
   map_option idleConnsLen (run_from (pool_options 1 0 0 0) [EGet (DialOK None), EClose, EPut 1]) = Some 1 \<and>
   map_option poolSize (run_from (pool_options 1 0 0 0) [EGet (DialOK None), EClose, EPut 1]) = Some 0 \<and>
   map_option conns (run_from (pool_options 1 0 0 0) [EGet (DialOK None), EClose, EPut 1]) = Some [] \<and>
   conn_at (run_from (pool_options 1 0 0 0) [EGet (DialOK None), EClose, EPut 1]) 1 = Some (True, True)"
  by code_simp

section \<open>A speculative dial that fails\<close>

text \<open>
  Claim C3, evaluated on the code. A pool of capacity 2 with one idle connection wanted:
  the constructor reserves it (both counters go from 0 to 1) and starts
  \<^verbatim>\<open>addIdleConn\<close>. When that dial fails the goroutine returns and both counters stay at
  1, with no connection anywhere: \<^verbatim>\<open>IdleLen\<close> answers 1. The reserved capacity is
  lost: of the next two connections created by \<^verbatim>\<open>Get\<close> the second is not pooled,
  where in a pool without the failed reservation it is.
\<close>

theorem failed_addIdleConn_keeps_reservation:
  "map_option poolSize (run_from (pool_options 2 1 0 0) []) = Some 1 \<and>
   map_option idleConnsLen (run_from (pool_options 2 1 0 0) []) = Some 1 \<and>
   map_option addIdle_running (run_from (pool_options 2 1 0 0) []) = Some 1 \<and>
   map_option poolSize (run_from (pool_options 2 1 0 0) [EAddIdle (DialError 3)]) = Some 1 \<and>
   map_option idleConnsLen (run_from (pool_options 2 1 0 0) [EAddIdle (DialError 3)]) = Some 1 \<and>
   map_option addIdle_running (run_from (pool_options 2 1 0 0) [EAddIdle (DialError 3)]) = Some 0 \<and>
   map_option conns (run_from (pool_options 2 1 0 0) [EAddIdle (DialError 3)]) = Some [] \<and>
   map_option idleConns (run_from (pool_options 2 1 0 0) [EAddIdle (DialError 3)]) = Some [] \<and>
   map_option IdleLen (run_from (pool_options 2 1 0 0) [EAddIdle (DialError 3)]) = Some 1 \<and>
   conn_at (run_from (pool_options 2 1 0 0)
      [EAddIdle (DialError 3), EGet (DialOK None), EGet (DialOK None)]) 2 = Some (False, False) \<and>
   conn_at (run_from (pool_options 2 0 0 0)
      [EGet (DialOK None), EGet (DialOK None)]) 2 = Some (False, True)"
  by code_simp

section \<open>Options are used as given\<close>

lemma cap32_nonzero: "0 < n \<Longrightarrow> n < 2 ^ 32 \<Longrightarrow> (word_of_int n :: 32 word) \<noteq> 0"
  by (auto simp: word_of_int_eq_0_iff dest: zdvd_imp_le)

lemma Get_full_gate:
  assumes "\<not> pool_closed w" and "\<not> queue w < queue_cap w"
  shows "Get w d = Return (nil, Some ErrPoolTimeout,
            w\<lparr>stats := (stats w)\<lparr>Timeouts := Timeouts (stats w) + 1\<rparr>\<rparr>)"
  using assms by (simp add: Get_def waitTurn_def)

lemma Options_init_defaults:
  "PoolSize o0 = 0 \<Longrightarrow> PoolSize (Options_init n o0) = wrap64 (10 * n)"
  "DialTimeout o0 = 0 \<Longrightarrow> DialTimeout (Options_init n o0) = 5 * Second"
  "IdleTimeout o0 = 0 \<Longrightarrow> IdleTimeout (Options_init n o0) = 5 * Minute"
  "PoolSize o0 \<noteq> 0 \<Longrightarrow> PoolSize (Options_init n o0) = PoolSize o0"
  by (simp_all add: Options_init_def Let_def)

text \<open>
  Claim C4, on the code. \<^verbatim>\<open>NewThriftConnPool\<close> never calls \<^verbatim>\<open>Options.init\<close>: the
  pool keeps the options it was given. With \<^verbatim>\<open>PoolSize\<close> 0 the channel has no room, so
  in every world a run leads to, as long as the pool is open, \<^verbatim>\<open>Get\<close> counts a timeout
  and returns \<^verbatim>\<open>ErrPoolTimeout\<close>.
\<close>

theorem zero_PoolSize_Get_times_out:
  assumes "PoolSize o0 = 0" and "run_from o0 evs = Some w" and "\<not> pool_closed w"
  shows "opt w = o0 \<and>
         Get w d = Return (nil, Some ErrPoolTimeout,
            w\<lparr>stats := (stats w)\<lparr>Timeouts := Timeouts (stats w) + 1\<rparr>\<rparr>)"
proof -
  have o: "opt w = o0"
    using assms(2) by (rule opt_run_from)
  then have "queue_cap w = 0"
    using assms(1) by (simp add: queue_cap_def)
  then show ?thesis
    using o Get_full_gate [OF assms(3)] by simp
qed

theorem zero_PoolSize_Get_times_out_witness:
  "PoolSize (pool_options 0 0 0 0) = 0 \<and>
   map_option closed_flag (run_from (pool_options 0 0 0 0) [EGet (DialOK None)]) = Some 0 \<and>
   map_option (PoolSize \<circ> opt) (run_from (pool_options 0 0 0 0) [EGet (DialOK None)]) = Some 0 \<and>
   Get_result (run_from (pool_options 0 0 0 0) []) (DialOK None) = Some (nil, Some ErrPoolTimeout) \<and>
   Get_result (run_from (pool_options 0 0 0 0) [EGet (DialOK None)]) (DialOK None)
     = Some (nil, Some ErrPoolTimeout) \<and>
   PoolSize (Options_init 4 (pool_options 0 0 0 0)) = 40"
proof -
  let ?o = "pool_options 0 0 0 0"
  let ?r = "run_from ?o [EGet (DialOK None)]"
  let ?s = "run_from ?o []"
  have h: "PoolSize ?o = 0" "\<not> Option.is_none ?r" "\<not> pool_closed (the ?r)"
    "\<not> Option.is_none ?s" "\<not> pool_closed (the ?s)"
    "map_option closed_flag ?r = Some 0" "PoolSize (Options_init 4 ?o) = 40"
    by code_simp+
  have r: "?r = Some (the ?r)" "?s = Some (the ?s)"
    using h(2,4) by (simp_all add: Option.is_none_def)
  have "Get_result ?r (DialOK None) = Some (nil, Some ErrPoolTimeout)"
    using zero_PoolSize_Get_times_out [OF h(1) r(1) h(3), of "DialOK None"]
    by (subst r(1)) (simp add: Get_result_def)
  moreover have "Get_result ?s (DialOK None) = Some (nil, Some ErrPoolTimeout)"
    using zero_PoolSize_Get_times_out [OF h(1) r(2) h(5), of "DialOK None"]
    by (subst r(2)) (simp add: Get_result_def)
  moreover have "map_option (PoolSize \<circ> opt) ?r = Some 0"
    using zero_PoolSize_Get_times_out [OF h(1) r(1) h(3), of "DialOK None"] h(1)
    by (subst r(1)) simp
  ultimately show ?thesis using h(1,6,7) by simp
qed

section \<open>The idle counter after construction\<close>

lemma minIdle_loop_reserve:
  "MinIdleConns (opt p) \<noteq> 0 \<Longrightarrow> poolSize p + int n \<le> PoolSize (opt p) \<Longrightarrow>
   idleConnsLen p + int n \<le> MinIdleConns (opt p) \<Longrightarrow>
   minIdle_loop n p = p\<lparr>poolSize := poolSize p + int n, idleConnsLen := idleConnsLen p + int n,
                          addIdle_running := addIdle_running p + n\<rparr>"
proof (induction n arbitrary: p)
  case 0
  then show ?case by simp
next
  case (Suc n)
  have c: "checkMinIdleConns p = p\<lparr>poolSize := poolSize p + 1, idleConnsLen := idleConnsLen p + 1,
          addIdle_running := Suc (addIdle_running p)\<rparr>"
    using Suc.prems by (simp add: checkMinIdleConns_def)
  show ?case
    using Suc.prems by (simp add: c Suc.IH add.assoc)
qed

lemma addIdleConn_dial_fails:
  assumes "\<not> pool_closed w" and "breaker_inv w"
  shows "conns (addIdleConn w (DialError k)) = conns w \<and>
         idleConns (addIdleConn w (DialError k)) = idleConns w \<and>
         idleConnsLen (addIdleConn w (DialError k)) = idleConnsLen w \<and>
         poolSize (addIdleConn w (DialError k)) = poolSize w \<and>
         addIdle_running (addIdleConn w (DialError k)) = addIdle_running w"
proof (cases "cap32 w \<le> dialErrorsNum w")
  case True
  then have "dialErrorsNum w \<noteq> 0"
    using assms(2) by (auto simp: breaker_inv_def)
  then have "lastDialError w \<noteq> None"
    using assms(2) by (simp add: breaker_inv_def)
  then show ?thesis
    using newConn_cases(2) [OF assms(1) True] by (simp add: addIdleConn_def)
next
  case False
  then show ?thesis
    using newConn_cases(3) [OF assms(1) False] by (simp add: addIdleConn_def)
qed

lemma run_addIdle_failures:
  assumes "\<not> pool_closed w" and "breaker_inv w" and "n \<le> addIdle_running w"
  shows "\<exists>w'. run w (replicate n (EAddIdle (DialError k))) = Some w' \<and>
           conns w' = conns w \<and> idleConns w' = idleConns w \<and> idleConnsLen w' = idleConnsLen w \<and>
           poolSize w' = poolSize w \<and> opt w' = opt w \<and> addIdle_running w' = addIdle_running w - n"
  using assms
proof (induction n arbitrary: w)
  case 0
  then show ?case by simp
next
  case (Suc n)
  let ?a = "addIdleConn w (DialError k)"
  let ?w1 = "?a\<lparr>addIdle_running := addIdle_running ?a - 1\<rparr>"
  have s: "step w (EAddIdle (DialError k)) = Return ?w1"
    by (simp add: Let_def)
  have e: "enabled w (EAddIdle (DialError k))"
    using Suc.prems(3) by simp
  note f = addIdleConn_dial_fails [OF Suc.prems(1,2), of k]
  have d: "dials w ?w1"
    using step_dials [OF s] by simp
  have 1: "\<not> pool_closed ?w1"
    using d Suc.prems(1) by (simp add: dials_def pool_closed_def)
  have 2: "breaker_inv ?w1"
    using breaker_inv_step [OF s e Suc.prems(2)] .
  have 3: "n \<le> addIdle_running ?w1"
    using f Suc.prems(3) by simp
  obtain w' where w': "run ?w1 (replicate n (EAddIdle (DialError k))) = Some w'"
    "conns w' = conns ?w1" "idleConns w' = idleConns ?w1" "idleConnsLen w' = idleConnsLen ?w1"
    "poolSize w' = poolSize ?w1" "opt w' = opt ?w1" "addIdle_running w' = addIdle_running ?w1 - n"
    using Suc.IH [OF 1 2 3] by blast
  have "run w (replicate (Suc n) (EAddIdle (DialError k))) = Some w'"
    using e w'(1) by (simp add: Let_def)
  moreover have "opt ?w1 = opt w"
    using d by (simp add: dials_def)
  ultimately show ?case
    using w'(2-7) f by auto
qed

text \<open>
  Claim C10. With \<open>0 < MinIdleConns \<le> PoolSize\<close>, and a capacity that \<^verbatim>\<open>make\<close>
  accepts, the constructor returns a pool whose idle counter (so \<^verbatim>\<open>IdleLen\<close>, and
  \<^verbatim>\<open>Stats().IdleConns\<close> after the conversion to \<^verbatim>\<open>uint32\<close>) and \<^verbatim>\<open>poolSize\<close>
  already equal \<^verbatim>\<open>MinIdleConns\<close>, while \<^verbatim>\<open>idleConns\<close> and \<^verbatim>\<open>conns\<close> are empty and
  all the dials are still to run: the counter counts reservations. If the capacity fits
  \<^verbatim>\<open>uint32\<close> and every one of these dials fails, no goroutine is left, the lists are
  still empty and the counter still is \<^verbatim>\<open>MinIdleConns\<close>; and from then on, whatever
  happens to the pool short of \<^verbatim>\<open>Close\<close> (which sets the counter to 0), \<^verbatim>\<open>IdleLen\<close>
  stays above the length of \<^verbatim>\<open>idleConns\<close> by at least \<^verbatim>\<open>MinIdleConns\<close>.
\<close>

theorem NewThriftConnPool_reserves_idle:
  assumes "0 < MinIdleConns o0" and "MinIdleConns o0 \<le> PoolSize o0"
    and "PoolSize o0 \<le> maxSliceCap"
  shows "\<exists>w0. NewThriftConnPool o0 = Return w0 \<and>
           idleConnsLen w0 = MinIdleConns o0 \<and> IdleLen w0 = MinIdleConns o0 \<and>
           IdleConns (pool_Stats w0) = word_of_int (MinIdleConns o0) \<and>
           poolSize w0 = MinIdleConns o0 \<and> idleConns w0 = [] \<and> conns w0 = [] \<and>
           addIdle_running w0 = nat (MinIdleConns o0) \<and>
           (PoolSize o0 < 2 ^ 32 \<longrightarrow>
             (\<forall>k. \<exists>w. run w0 (replicate (nat (MinIdleConns o0)) (EAddIdle (DialError k))) = Some w \<and>
                  addIdle_running w = 0 \<and> idleConns w = [] \<and> conns w = [] \<and>
                  idleConnsLen w = MinIdleConns o0 \<and>
                  IdleConns (pool_Stats w) = word_of_int (MinIdleConns o0) \<and>
                  (\<forall>evs w'. EClose \<notin> set evs \<and> run w evs = Some w' \<longrightarrow>
                     int (length (idleConns w')) + MinIdleConns o0 \<le> IdleLen w' \<and>
                     int (length (idleConns w')) < IdleLen w')))"
proof -
  let ?p = "\<lparr>opt = o0, dialErrorsNum = 0, lastDialError = None, queue = 0,
             conns = [], idleConns = [], poolSize = 0, idleConnsLen = 0,
             stats = \<lparr>Hits = 0, Misses = 0, Timeouts = 0, TotalConns = 0,
                      IdleConns = 0, StaleConns = 0\<rparr>,
             closed_flag = 0,
             heap = Map.empty, nextAddr = 1, clock = 0, addIdle_running = 0,
             tryDial_running = 0, reaper_running = 0, held = []\<rparr>"
  let ?n = "nat (MinIdleConns o0)"
  have m: "minIdle_loop ?n ?p = ?p\<lparr>poolSize := MinIdleConns o0, idleConnsLen := MinIdleConns o0,
              addIdle_running := ?n\<rparr>"
    using assms minIdle_loop_reserve [of ?p ?n] by simp
  define w0 where "w0 = (if IdleTimeout o0 > 0 \<and> IdleCheckFrequency o0 > 0
      then (minIdle_loop ?n ?p)\<lparr>reaper_running := 1\<rparr> else minIdle_loop ?n ?p)"
  have w0: "NewThriftConnPool o0 = Return w0"
    "w0 = minIdle_loop ?n ?p \<or> w0 = (minIdle_loop ?n ?p)\<lparr>reaper_running := 1\<rparr>"
    using assms by (simp_all add: NewThriftConnPool_def Let_def w0_def)
  have f: "idleConnsLen w0 = MinIdleConns o0" "poolSize w0 = MinIdleConns o0" "idleConns w0 = []"
    "conns w0 = []" "addIdle_running w0 = ?n" "\<not> pool_closed w0"
    using w0(2) unfolding m by (auto simp: pool_closed_def)
  have s: "IdleLen w0 = MinIdleConns o0" "IdleConns (pool_Stats w0) = word_of_int (MinIdleConns o0)"
    using f(1) by (simp_all add: IdleLen_def pool_Stats_def)
  have r: "\<exists>w. run w0 (replicate ?n (EAddIdle (DialError k))) = Some w \<and>
                  addIdle_running w = 0 \<and> idleConns w = [] \<and> conns w = [] \<and>
                  idleConnsLen w = MinIdleConns o0 \<and>
                  IdleConns (pool_Stats w) = word_of_int (MinIdleConns o0) \<and>
                  (\<forall>evs w'. EClose \<notin> set evs \<and> run w evs = Some w' \<longrightarrow>
                     int (length (idleConns w')) + MinIdleConns o0 \<le> IdleLen w' \<and>
                     int (length (idleConns w')) < IdleLen w')"
    if "PoolSize o0 < 2 ^ 32" for k
  proof -
    have "(word_of_int (PoolSize o0) :: 32 word) \<noteq> 0"
      using assms that by (intro cap32_nonzero) auto
    then have b: "breaker_inv w0"
      using breaker_inv_NewThriftConnPool [OF w0(1)] by simp
    obtain w where w: "run w0 (replicate ?n (EAddIdle (DialError k))) = Some w"
      "conns w = conns w0" "idleConns w = idleConns w0" "idleConnsLen w = idleConnsLen w0"
      "addIdle_running w = addIdle_running w0 - ?n"
      using run_addIdle_failures [OF f(6) b, of ?n k] f(5) by auto
    have e: "idle_excess w = MinIdleConns o0"
      using w f by (simp add: idle_excess_def)
    have p: "int (length (idleConns w')) + MinIdleConns o0 \<le> IdleLen w' \<and>
             int (length (idleConns w')) < IdleLen w'"
      if "EClose \<notin> set evs" "run w evs = Some w'" for evs w'
    proof -
      have "MinIdleConns o0 \<le> idle_excess w'"
        using excess_run [OF that(2,1)] e by simp
      then show ?thesis
        using assms(1) by (simp add: idle_excess_def IdleLen_def)
    qed
    show ?thesis
      using w f p by (intro exI [of _ w]) (auto simp: pool_Stats_def IdleLen_def)
  qed
  show ?thesis
    using w0(1) f(1-5) s r by blast
qed

theorem NewThriftConnPool_reserves_idle_witness:
  "0 < MinIdleConns (pool_options 3 2 0 0) \<and>
   MinIdleConns (pool_options 3 2 0 0) \<le> PoolSize (pool_options 3 2 0 0) \<and>
   PoolSize (pool_options 3 2 0 0) \<le> maxSliceCap \<and>
   map_option idleConnsLen (run_from (pool_options 3 2 0 0) []) = Some 2 \<and>
   map_option idleConns (run_from (pool_options 3 2 0 0) []) = Some [] \<and>
   map_option addIdle_running (run_from (pool_options 3 2 0 0) []) = Some 2 \<and>
   map_option idleConnsLen
     (run_from (pool_options 3 2 0 0) [EAddIdle (DialError 7), EAddIdle (DialError 7)]) = Some 2 \<and>
   map_option idleConns
     (run_from (pool_options 3 2 0 0) [EAddIdle (DialError 7), EAddIdle (DialError 7)]) = Some [] \<and>
   map_option addIdle_running
     (run_from (pool_options 3 2 0 0) [EAddIdle (DialError 7), EAddIdle (DialError 7)]) = Some 0 \<and>
   map_option idleConns
     (run_from (pool_options 3 2 0 0)
        [EAddIdle (DialError 7), EAddIdle (DialError 7), EGet (DialOK None), EPut 1, ETick 5])
     = Some [1] \<and>
   1 + 2 \<le> IdleLen (the (run_from (pool_options 3 2 0 0)
        [EAddIdle (DialError 7), EAddIdle (DialError 7), EGet (DialOK None), EPut 1, ETick 5]))"
proof -
  let ?o = "pool_options 3 2 0 0"
  let ?f = "[EAddIdle (DialError 7), EAddIdle (DialError 7)]"
  let ?l = "[EGet (DialOK None), EPut 1, ETick 5]"
  have h: "0 < MinIdleConns ?o" "MinIdleConns ?o \<le> PoolSize ?o" "PoolSize ?o < 2 ^ 32"
    "MinIdleConns ?o = 2" "PoolSize ?o \<le> maxSliceCap"
    by (simp_all add: pool_options_def maxSliceCap_def)
  from NewThriftConnPool_reserves_idle [OF h(1,2,5)] h(3,4) obtain w0 where
    w0: "NewThriftConnPool ?o = Return w0" "idleConnsLen w0 = 2" "idleConns w0 = []"
      "addIdle_running w0 = 2"
    and f: "\<forall>k. \<exists>w. run w0 (replicate 2 (EAddIdle (DialError k))) = Some w \<and>
             addIdle_running w = 0 \<and> idleConns w = [] \<and> conns w = [] \<and>
             idleConnsLen w = 2 \<and> IdleConns (pool_Stats w) = 2 \<and>
             (\<forall>evs w'. EClose \<notin> set evs \<and> run w evs = Some w' \<longrightarrow>
                int (length (idleConns w')) + 2 \<le> IdleLen w' \<and>
                int (length (idleConns w')) < IdleLen w')"
    by auto
  have r: "run_from ?o evs = run w0 evs" for evs
    using w0(1) by (simp add: run_from_def)
  have n: "replicate 2 (EAddIdle (DialError 7)) = ?f"
    by (simp add: numeral_2_eq_2)
  from f obtain w where w:
    "run w0 ?f = Some w"
    "addIdle_running w = 0" "idleConns w = []" "idleConnsLen w = 2"
    "\<forall>evs w'. EClose \<notin> set evs \<and> run w evs = Some w' \<longrightarrow>
        int (length (idleConns w')) + 2 \<le> IdleLen w'"
    unfolding n [symmetric] by blast
  have l: "\<not> Option.is_none (run_from ?o (?f @ ?l))" "idleConns (the (run_from ?o (?f @ ?l))) = [1]"
    by code_simp+
  have a: "run w0 (?f @ ?l) = (case run w0 ?f of None \<Rightarrow> None | Some v \<Rightarrow> run v ?l)"
    by (simp split: outcome.splits)
  have rl: "run w ?l = Some (the (run_from ?o (?f @ ?l)))"
    using l(1) w(1) unfolding r a by (simp add: Option.is_none_def)
  have ne: "EClose \<notin> set ?l"
    by simp
  have "int (length (idleConns (the (run_from ?o (?f @ ?l))))) + 2
             \<le> IdleLen (the (run_from ?o (?f @ ?l)))"
    using w(5) ne rl by blast
  then have "1 + 2 \<le> IdleLen (the (run_from ?o (?f @ ?l)))"
    using l(2) by simp
  moreover have "map_option idleConns (run_from ?o (?f @ ?l)) = Some [1]"
    by code_simp
  ultimately show ?thesis
    using h(1,2,5) w0(2-4) w(1-4) by (simp add: r)
qed

section \<open>Closing the pool\<close>

lemma conn_Close_eq:
  "heap w cn = Some c \<Longrightarrow>
   conn_Close w cn = Return (close_error w cn, w\<lparr>heap := (heap w)(cn \<mapsto> c\<lparr>closed := True\<rparr>)\<rparr>)"
proof -
  assume c: "heap w cn = Some c"
  have "closed c \<Longrightarrow> (heap w)(cn \<mapsto> c\<lparr>closed := True\<rparr>) = heap w"
    using c by (auto simp: fun_eq_iff)
  then show ?thesis using c by (auto simp: conn_Close_def close_error_def)
qed









section \<open>The circuit breaker\<close>












section \<open>The loop of Get\<close>

lemma dropped_Nil [simp]: "dropped w [] w"
  by (simp add: dropped_def close_heap_def fun_eq_iff)

lemma close_heap_twice: "close_heap (close_heap h [x]) ps = close_heap h (ps @ [x])"
  by (auto simp: close_heap_def fun_eq_iff option.map_comp comp_def)

lemma dropped_trans: "dropped w [x] w1 \<Longrightarrow> dropped w1 ps w2 \<Longrightarrow> dropped w (ps @ [x]) w2"
  by (simp add: dropped_def close_heap_twice)

lemma isStaleConn_same:
  "opt w' = opt w \<Longrightarrow> clock w' = clock w \<Longrightarrow> heap w' c = heap w c \<Longrightarrow>
   isStaleConn w' c = isStaleConn w c"
  by (cases "heap w c") (simp_all add: isStaleConn_def)

lemma isStaleConn_dropped:
  assumes "dropped w post w2"
  shows "isStaleConn w2 x = isStaleConn w x"
proof -
  have o: "opt w2 = opt w" "clock w2 = clock w" "heap w2 x = close_heap (heap w) post x"
    using assms by (simp_all add: dropped_def)
  show ?thesis
  proof (cases "heap w x")
    case None
    then have "heap w2 x = None" using o(3) by (simp add: close_heap_def)
    then show ?thesis using None o(1,2) by (simp add: isStaleConn_def)
  next
    case (Some c)
    then obtain c2 where "heap w2 x = Some c2" "usedTime c2 = usedTime c"
      using o(3) by (cases "x \<in> set post") (simp_all add: close_heap_def)
    then show ?thesis using Some o(1,2) by (simp add: isStaleConn_def)
  qed
qed

lemma removeConn_eq:
  assumes "heap w c = Some x"
  shows "\<exists>w'. removeConn w c = Return w' \<and> conns w' = remove1 c (conns w) \<and> heap w' = heap w \<and>
           idleConns w' = idleConns w \<and> opt w' = opt w \<and> clock w' = clock w \<and> stats w' = stats w \<and>
           queue w' = queue w \<and> nextAddr w' = nextAddr w \<and> closed_flag w' = closed_flag w \<and>
           dialErrorsNum w' = dialErrorsNum w \<and> lastDialError w' = lastDialError w"
proof (cases "c \<in> set (conns w)")
  case False
  then show ?thesis by (simp add: removeConn_def remove1_idem)
next
  case True
  then show ?thesis using assms by (cases "pooled x") (simp_all add: removeConn_def Let_def)
qed

lemma Get_loop_stale_step:
  assumes "idleConns w = xs @ [c]" and "c \<noteq> nil" and "heap w c = Some x"
    and "isStaleConn w c = Return True"
  shows "\<exists>w2. Get_loop w d = Get_loop w2 d \<and> idleConns w2 = xs \<and> dropped w [c] w2"
proof -
  let ?w1 = "checkMinIdleConns (w\<lparr>idleConns := xs, idleConnsLen := idleConnsLen w - 1\<rparr>)"
  have p: "popIdle w = (c, ?w1)"
    using assms(1) by (rule popIdle_snoc)
  have s: "isStaleConn ?w1 c = Return True"
    using assms(4) isStaleConn_same [of ?w1 w c] by simp
  have h1: "heap ?w1 c = Some x"
    using assms(3) by simp
  from removeConn_eq [OF h1] obtain w' where w':
    "removeConn ?w1 c = Return w'" "conns w' = remove1 c (conns w)" "heap w' = heap w"
    "idleConns w' = xs" "opt w' = opt w" "clock w' = clock w" "stats w' = stats w"
    "queue w' = queue w" "nextAddr w' = nextAddr w" "closed_flag w' = closed_flag w"
    "dialErrorsNum w' = dialErrorsNum w" "lastDialError w' = lastDialError w"
    by auto
  let ?w2 = "w'\<lparr>heap := (heap w')(c \<mapsto> x\<lparr>closed := True\<rparr>)\<rparr>"
  have cc: "conn_Close w' c = Return (close_error w' c, ?w2)"
    using conn_Close_eq [of w' c x] assms(3) w'(3) by simp
  then have "CloseConn ?w1 c = Return (close_error w' c, ?w2)"
    using w'(1) by (simp add: CloseConn_def)
  then have g: "Get_loop w d = Get_loop ?w2 d"
    using p s assms(2) by (simp add: Get_loop.simps [of w d])
  have "heap ?w2 = close_heap (heap w) [c]"
    using assms(3) w'(3) by (auto simp: close_heap_def fun_eq_iff)
  then have "dropped w [c] ?w2"
    using w' by (simp add: dropped_def)
  then show ?thesis using g w'(4) by (intro exI [of _ ?w2]) simp
qed

lemma Get_loop_drops:
  assumes "idleConns w = base @ post"
    and "\<forall>x \<in> set post. x \<noteq> nil \<and> heap w x \<noteq> None \<and> isStaleConn w x = Return True"
  shows "\<exists>w2. Get_loop w d = Get_loop w2 d \<and> idleConns w2 = base \<and> dropped w post w2"
  using assms
proof (induction post arbitrary: w rule: rev_induct)
  case Nil
  then show ?case by (intro exI [of _ w]) simp
next
  case (snoc x ps)
  obtain c where c: "heap w x = Some c" "x \<noteq> nil" "isStaleConn w x = Return True"
    using snoc.prems(2) by auto
  have i: "idleConns w = (base @ ps) @ [x]"
    using snoc.prems(1) by simp
  from Get_loop_stale_step [OF i c(2) c(1) c(3)] obtain w1 where
    w1: "Get_loop w d = Get_loop w1 d" "idleConns w1 = base @ ps" "dropped w [x] w1"
    by blast
  have "\<forall>y \<in> set ps. y \<noteq> nil \<and> heap w1 y \<noteq> None \<and> isStaleConn w1 y = Return True"
  proof
    fix y assume y: "y \<in> set ps"
    then have "y \<noteq> nil" "heap w y \<noteq> None" "isStaleConn w y = Return True"
      using snoc.prems(2) by auto
    moreover have "heap w1 y \<noteq> None \<longleftrightarrow> heap w y \<noteq> None"
      using w1(3) by (auto simp: dropped_def close_heap_def)
    ultimately show "y \<noteq> nil \<and> heap w1 y \<noteq> None \<and> isStaleConn w1 y = Return True"
      using isStaleConn_dropped [OF w1(3)] by simp
  qed
  from snoc.IH [OF w1(2) this] obtain w2 where
    w2: "Get_loop w1 d = Get_loop w2 d" "idleConns w2 = base" "dropped w1 ps w2"
    by blast
  show ?case
    using w1(1) w2 dropped_trans [OF w1(3) w2(3)] by (intro exI [of _ w2]) simp
qed

lemma Get_loop_hit:
  assumes "idleConns w = pre @ [c]" and "c \<noteq> nil" and "isStaleConn w c = Return False"
  shows "Get_loop w d =
     Return (c, None,
       (checkMinIdleConns (w\<lparr>idleConns := pre, idleConnsLen := idleConnsLen w - 1\<rparr>))
         \<lparr>stats := (stats w)\<lparr>Hits := Hits (stats w) + 1\<rparr>\<rparr>)"
proof -
  let ?w1 = "checkMinIdleConns (w\<lparr>idleConns := pre, idleConnsLen := idleConnsLen w - 1\<rparr>)"
  have p: "popIdle w = (c, ?w1)"
    using assms(1) by (rule popIdle_snoc)
  have s: "isStaleConn ?w1 c = Return False"
    using assms(3) isStaleConn_same [of ?w1 w c] by simp
  show ?thesis
    using p s assms(2) by (simp add: Get_loop.simps [of w d])
qed

lemma Get_loop_empty: "idleConns w = [] \<Longrightarrow> Get_loop w d = Get_miss w d"
  by (simp add: Get_loop.simps [of w d] popIdle_Nil)

lemma Get_miss_dial_error:
  assumes "\<not> pool_closed w" and "dialErrorsNum w < cap32 w" and "0 < queue w"
  shows "\<exists>w'. Get_miss w (DialError k) = Return (nil, Some (ExtError k), w') \<and>
           queue w' = queue w - 1 \<and> conns w' = conns w \<and> idleConns w' = idleConns w \<and>
           heap w' = heap w \<and> nextAddr w' = nextAddr w \<and>
           stats w' = (stats w)\<lparr>Misses := Misses (stats w) + 1\<rparr>"
proof -
  let ?w = "w\<lparr>stats := (stats w)\<lparr>Misses := Misses (stats w) + 1\<rparr>\<rparr>"
  let ?a = "?w\<lparr>lastDialError := Some (ExtError k), dialErrorsNum := dialErrorsNum ?w + 1,
              tryDial_running := Suc (tryDial_running ?w)\<rparr>"
  let ?b = "?w\<lparr>lastDialError := Some (ExtError k), dialErrorsNum := dialErrorsNum ?w + 1\<rparr>"
  have o: "\<not> pool_closed ?w" "\<not> cap32 ?w \<le> dialErrorsNum ?w"
    using assms(1,2) by (simp_all add: pool_closed_def cap32_def)
  note n = newConn_cases(3) [OF o, of True k]
  show ?thesis
  proof (cases "dialErrorsNum ?w + 1 = cap32 ?w")
    case True
    then have "newConn ?w True (DialError k) = (nil, Some (ExtError k), ?a)"
      using n by simp
    then have "NewConn ?w True (DialError k) = Return (nil, Some (ExtError k), ?a)"
      by (rule NewConn_cases(1))
    then have "Get_miss w (DialError k) = Return (nil, Some (ExtError k), ?a\<lparr>queue := queue w - 1\<rparr>)"
      using assms(3) by (simp add: Get_miss_def Let_def freeTurn_def)
    then show ?thesis by simp
  next
    case False
    then have "newConn ?w True (DialError k) = (nil, Some (ExtError k), ?b)"
      using n by simp
    then have "NewConn ?w True (DialError k) = Return (nil, Some (ExtError k), ?b)"
      by (rule NewConn_cases(1))
    then have "Get_miss w (DialError k) = Return (nil, Some (ExtError k), ?b\<lparr>queue := queue w - 1\<rparr>)"
      using assms(3) by (simp add: Get_miss_def Let_def freeTurn_def)
    then show ?thesis by simp
  qed
qed

lemma Get_miss_tripped:
  assumes "\<not> pool_closed w" and "cap32 w \<le> dialErrorsNum w" and "lastDialError w = Some e"
    and "0 < queue w"
  shows "\<exists>w'. Get_miss w d = Return (nil, Some e, w') \<and>
           queue w' = queue w - 1 \<and> conns w' = conns w \<and> idleConns w' = idleConns w \<and>
           heap w' = heap w \<and> nextAddr w' = nextAddr w \<and>
           stats w' = (stats w)\<lparr>Misses := Misses (stats w) + 1\<rparr>"
proof -
  let ?w = "w\<lparr>stats := (stats w)\<lparr>Misses := Misses (stats w) + 1\<rparr>\<rparr>"
  have o: "\<not> pool_closed ?w" "cap32 ?w \<le> dialErrorsNum ?w"
    using assms(1,2) by (simp_all add: pool_closed_def cap32_def)
  have "newConn ?w True d = (nil, Some e, ?w)"
    using newConn_cases(2) [OF o, of True d] assms(3) by simp
  then have "NewConn ?w True d = Return (nil, Some e, ?w)"
    by (rule NewConn_cases(1))
  then have "Get_miss w d = Return (nil, Some e, ?w\<lparr>queue := queue w - 1\<rparr>)"
    using assms(4) by (simp add: Get_miss_def Let_def freeTurn_def)
  then show ?thesis by simp
qed

lemma Get_miss_dial_ok:
  assumes "\<not> pool_closed w" and "dialErrorsNum w < cap32 w"
  shows "\<exists>w' x. Get_miss w (DialOK ce) = Return (nextAddr w, None, w') \<and>
           queue w' = queue w \<and> conns w' = conns w @ [nextAddr w] \<and> idleConns w' = idleConns w \<and>
           heap w' = (heap w)(nextAddr w \<mapsto> x) \<and> \<not> closed x \<and> socket x = ce \<and>
           usedTime x = clock w \<and> nextAddr w' = Suc (nextAddr w) \<and>
           stats w' = (stats w)\<lparr>Misses := Misses (stats w) + 1\<rparr>"
proof -
  let ?w = "w\<lparr>stats := (stats w)\<lparr>Misses := Misses (stats w) + 1\<rparr>\<rparr>"
  let ?x = "\<lparr>Endpoint = Addr (opt w), closed = False, socket = ce, usedTime = clock w,
             createTime = clock w, pooled = True\<rparr>"
  let ?a = "?w\<lparr>heap := (heap w)(nextAddr w \<mapsto> ?x), nextAddr := Suc (nextAddr w)\<rparr>"
  have o: "\<not> pool_closed ?w" "\<not> cap32 ?w \<le> dialErrorsNum ?w"
    using assms(1,2) by (simp_all add: pool_closed_def cap32_def)
  have n: "newConn ?w True (DialOK ce) = (nextAddr w, None, ?a)"
    using newConn_cases(4) [OF o, of True ce] by simp
  show ?thesis
  proof (cases "poolSize ?a < PoolSize (opt ?a)")
    case True
    have "NewConn ?w True (DialOK ce) =
            Return (nextAddr w, None, ?a\<lparr>conns := conns ?a @ [nextAddr w], poolSize := poolSize ?a + 1\<rparr>)"
      using NewConn_cases(3) [OF n _ True] by simp
    then have "Get_miss w (DialOK ce) =
            Return (nextAddr w, None, ?a\<lparr>conns := conns ?a @ [nextAddr w], poolSize := poolSize ?a + 1\<rparr>)"
      by (simp add: Get_miss_def Let_def)
    then show ?thesis
      by (intro exI [of _ "?a\<lparr>conns := conns ?a @ [nextAddr w], poolSize := poolSize ?a + 1\<rparr>"]
          exI [of _ ?x]) simp
  next
    case False
    have h: "heap ?a (nextAddr w) = Some ?x" by simp
    have "NewConn ?w True (DialOK ce) =
            Return (nextAddr w, None, ?a\<lparr>conns := conns ?a @ [nextAddr w],
               heap := (heap ?a)(nextAddr w \<mapsto> ?x\<lparr>pooled := False\<rparr>)\<rparr>)"
      using NewConn_cases(4) [OF n _ False h] by simp
    then have "Get_miss w (DialOK ce) =
            Return (nextAddr w, None, ?a\<lparr>conns := conns ?a @ [nextAddr w],
               heap := (heap ?a)(nextAddr w \<mapsto> ?x\<lparr>pooled := False\<rparr>)\<rparr>)"
      by (simp add: Get_miss_def Let_def)
    then show ?thesis
      by (intro exI [of _ "?a\<lparr>conns := conns ?a @ [nextAddr w],
               heap := (heap ?a)(nextAddr w \<mapsto> ?x\<lparr>pooled := False\<rparr>)\<rparr>"]
          exI [of _ "?x\<lparr>pooled := False\<rparr>"]) simp
  qed
qed

lemma Get_enters_loop:
  assumes "\<not> pool_closed w" and "queue w < queue_cap w"
  shows "Get w d = Get_loop (w\<lparr>queue := Suc (queue w)\<rparr>) d"
  using assms by (simp add: Get_def waitTurn_def)

lemma Get_drops_stale:
  assumes "\<not> pool_closed w" and "queue w < queue_cap w"
    and "idleConns w = pre @ post"
    and "\<forall>x \<in> set post. x \<noteq> nil \<and> heap w x \<noteq> None \<and> isStaleConn w x = Return True"
  shows "\<exists>w2. Get w d = Get_loop w2 d \<and> idleConns w2 = pre \<and>
           dropped (w\<lparr>queue := Suc (queue w)\<rparr>) post w2"
proof -
  let ?w0 = "w\<lparr>queue := Suc (queue w)\<rparr>"
  have i: "idleConns ?w0 = pre @ post" using assms(3) by simp
  have "\<forall>x \<in> set post. x \<noteq> nil \<and> heap ?w0 x \<noteq> None \<and> isStaleConn ?w0 x = Return True"
  proof
    fix x assume "x \<in> set post"
    then have "x \<noteq> nil" "heap w x \<noteq> None" "isStaleConn w x = Return True"
      using assms(4) by auto
    then show "x \<noteq> nil \<and> heap ?w0 x \<noteq> None \<and> isStaleConn ?w0 x = Return True"
      using isStaleConn_same [of ?w0 w x] by simp
  qed
  from Get_loop_drops [OF i this, of d] show ?thesis
    using Get_enters_loop [OF assms(1,2), of d] by auto
qed


text \<open>
  Claim C6. Take a \<^verbatim>\<open>Get\<close> on an open pool with a free slot in the channel, whose idle
  list ends in the connections \<open>post\<close>, all of them existing and stale. \<^verbatim>\<open>Get\<close> takes the
  slot and pops from the end of the list: every connection of \<open>post\<close> is closed and cut out
  of \<^verbatim>\<open>conns\<close>, and nothing else is. If the element before them is not stale it is returned
  with no error, \<^verbatim>\<open>Hits\<close> is one more, the slot is kept and the rest of the list is left as
  it was. If there is no element before them, \<^verbatim>\<open>Misses\<close> is one more and a connection is
  created: when the dial fails its error is returned with a nil connection, the slot is
  given back, and \<^verbatim>\<open>conns\<close> holds no new connection; when the dial succeeds the new
  connection, open and used now, is returned and appended to \<^verbatim>\<open>conns\<close>, the slot kept; and
  when the circuit breaker is open the stored dial error is returned without a dial, the
  slot given back.
\<close>

theorem Get_pops_idle_LIFO:
  assumes "\<not> pool_closed w" and "queue w < queue_cap w"
    and "idleConns w = pre @ post"
    and "\<forall>x \<in> set post. x \<noteq> nil \<and> heap w x \<noteq> None \<and> isStaleConn w x = Return True"
  shows
   "(\<forall>rest c. pre = rest @ [c] \<and> c \<noteq> nil \<and> isStaleConn w c = Return False \<longrightarrow>
       (\<exists>w'. Get w d = Return (c, None, w') \<and> idleConns w' = rest \<and>
             heap w' = close_heap (heap w) post \<and>
             mset (conns w') = mset (conns w) - mset post \<and>
             stats w' = (stats w)\<lparr>Hits := Hits (stats w) + 1\<rparr> \<and>
             queue w' = Suc (queue w) \<and> nextAddr w' = nextAddr w)) \<and>
    (pre = [] \<and> dialErrorsNum w < cap32 w \<longrightarrow>
       (\<forall>k. \<exists>w'. Get w (DialError k) = Return (nil, Some (ExtError k), w') \<and> idleConns w' = [] \<and>
             heap w' = close_heap (heap w) post \<and>
             mset (conns w') = mset (conns w) - mset post \<and>
             stats w' = (stats w)\<lparr>Misses := Misses (stats w) + 1\<rparr> \<and>
             queue w' = queue w \<and> nextAddr w' = nextAddr w) \<and>
       (\<forall>ce. \<exists>w' x. Get w (DialOK ce) = Return (nextAddr w, None, w') \<and> idleConns w' = [] \<and>
             heap w' = (close_heap (heap w) post)(nextAddr w \<mapsto> x) \<and>
             \<not> closed x \<and> socket x = ce \<and> usedTime x = clock w \<and>
             mset (conns w') = mset (conns w) - mset post + {#nextAddr w#} \<and>
             stats w' = (stats w)\<lparr>Misses := Misses (stats w) + 1\<rparr> \<and>
             queue w' = Suc (queue w) \<and> nextAddr w' = Suc (nextAddr w))) \<and>
    (pre = [] \<and> cap32 w \<le> dialErrorsNum w \<longrightarrow>
       (\<forall>e. lastDialError w = Some e \<longrightarrow>
         (\<exists>w'. Get w d = Return (nil, Some e, w') \<and> idleConns w' = [] \<and>
             heap w' = close_heap (heap w) post \<and>
             mset (conns w') = mset (conns w) - mset post \<and>
             stats w' = (stats w)\<lparr>Misses := Misses (stats w) + 1\<rparr> \<and>
             queue w' = queue w \<and> nextAddr w' = nextAddr w)))"
proof -
  let ?w0 = "w\<lparr>queue := Suc (queue w)\<rparr>"
  have drops: "\<exists>w2. Get w d' = Get_loop w2 d' \<and> idleConns w2 = pre \<and> opt w2 = opt w \<and>
      clock w2 = clock w \<and> stats w2 = stats w \<and> queue w2 = Suc (queue w) \<and>
      nextAddr w2 = nextAddr w \<and> closed_flag w2 = closed_flag w \<and>
      dialErrorsNum w2 = dialErrorsNum w \<and> lastDialError w2 = lastDialError w \<and>
      heap w2 = close_heap (heap w) post \<and> mset (conns w2) = mset (conns w) - mset post \<and>
      (\<forall>x. isStaleConn w2 x = isStaleConn w x)" for d'
  proof -
    from Get_drops_stale [OF assms, of d'] obtain w2 where
      g: "Get w d' = Get_loop w2 d'" "idleConns w2 = pre" and dr: "dropped ?w0 post w2"
      by blast
    have "isStaleConn w2 x = isStaleConn w x" for x
      using isStaleConn_dropped [OF dr, of x] isStaleConn_same [of ?w0 w x] by simp
    then show ?thesis
      using g dr by (intro exI [of _ w2]) (simp add: dropped_def)
  qed
  have hit: "\<exists>w'. Get w d = Return (c, None, w') \<and> idleConns w' = rest \<and>
             heap w' = close_heap (heap w) post \<and>
             mset (conns w') = mset (conns w) - mset post \<and>
             stats w' = (stats w)\<lparr>Hits := Hits (stats w) + 1\<rparr> \<and>
             queue w' = Suc (queue w) \<and> nextAddr w' = nextAddr w"
    if h: "pre = rest @ [c] \<and> c \<noteq> nil \<and> isStaleConn w c = Return False" for rest c
  proof -
    from drops [of d] obtain w2 where w2:
      "Get w d = Get_loop w2 d" "idleConns w2 = pre" "stats w2 = stats w"
      "queue w2 = Suc (queue w)" "nextAddr w2 = nextAddr w"
      "heap w2 = close_heap (heap w) post" "mset (conns w2) = mset (conns w) - mset post"
      "isStaleConn w2 c = isStaleConn w c"
      by blast
    have "idleConns w2 = rest @ [c]" "c \<noteq> nil" "isStaleConn w2 c = Return False"
      using h w2(2,8) by simp_all
    from Get_loop_hit [OF this, of d] show ?thesis
      using w2 by simp
  qed
  have closed2: "\<not> pool_closed w2" if "closed_flag w2 = closed_flag w" for w2
    using assms(1) that by (simp add: pool_closed_def)
  have fail: "\<exists>w'. Get w (DialError k) = Return (nil, Some (ExtError k), w') \<and> idleConns w' = [] \<and>
             heap w' = close_heap (heap w) post \<and>
             mset (conns w') = mset (conns w) - mset post \<and>
             stats w' = (stats w)\<lparr>Misses := Misses (stats w) + 1\<rparr> \<and>
             queue w' = queue w \<and> nextAddr w' = nextAddr w"
    if h: "pre = []" "dialErrorsNum w < cap32 w" for k
  proof -
    from drops [of "DialError k"] obtain w2 where w2:
      "Get w (DialError k) = Get_loop w2 (DialError k)" "idleConns w2 = pre" "stats w2 = stats w"
      "queue w2 = Suc (queue w)" "nextAddr w2 = nextAddr w"
      "heap w2 = close_heap (heap w) post" "mset (conns w2) = mset (conns w) - mset post"
      "opt w2 = opt w" "closed_flag w2 = closed_flag w" "dialErrorsNum w2 = dialErrorsNum w"
      by blast
    have m: "Get w (DialError k) = Get_miss w2 (DialError k)"
      using w2(1,2) h(1) Get_loop_empty [of w2] by simp
    have "\<not> pool_closed w2" "dialErrorsNum w2 < cap32 w2" "0 < queue w2"
      using closed2 [OF w2(9)] h(2) w2(4,8,10) by (simp_all add: cap32_def)
    from Get_miss_dial_error [OF this, of k] show ?thesis
      using m w2 h(1) by auto
  qed
  have ok: "\<exists>w' x. Get w (DialOK ce) = Return (nextAddr w, None, w') \<and> idleConns w' = [] \<and>
             heap w' = (close_heap (heap w) post)(nextAddr w \<mapsto> x) \<and>
             \<not> closed x \<and> socket x = ce \<and> usedTime x = clock w \<and>
             mset (conns w') = mset (conns w) - mset post + {#nextAddr w#} \<and>
             stats w' = (stats w)\<lparr>Misses := Misses (stats w) + 1\<rparr> \<and>
             queue w' = Suc (queue w) \<and> nextAddr w' = Suc (nextAddr w)"
    if h: "pre = []" "dialErrorsNum w < cap32 w" for ce
  proof -
    from drops [of "DialOK ce"] obtain w2 where w2:
      "Get w (DialOK ce) = Get_loop w2 (DialOK ce)" "idleConns w2 = pre" "stats w2 = stats w"
      "queue w2 = Suc (queue w)" "nextAddr w2 = nextAddr w"
      "heap w2 = close_heap (heap w) post" "mset (conns w2) = mset (conns w) - mset post"
      "opt w2 = opt w" "closed_flag w2 = closed_flag w" "dialErrorsNum w2 = dialErrorsNum w"
      "clock w2 = clock w"
      by blast
    have m: "Get w (DialOK ce) = Get_miss w2 (DialOK ce)"
      using w2(1,2) h(1) Get_loop_empty [of w2] by simp
    have "\<not> pool_closed w2" "dialErrorsNum w2 < cap32 w2"
      using closed2 [OF w2(9)] h(2) w2(8,10) by (simp_all add: cap32_def)
    from Get_miss_dial_ok [OF this, of ce] obtain w' x where
      "Get_miss w2 (DialOK ce) = Return (nextAddr w2, None, w')"
      "queue w' = queue w2" "conns w' = conns w2 @ [nextAddr w2]" "idleConns w' = idleConns w2"
      "heap w' = (heap w2)(nextAddr w2 \<mapsto> x)" "\<not> closed x" "socket x = ce"
      "usedTime x = clock w2" "nextAddr w' = Suc (nextAddr w2)"
      "stats w' = (stats w2)\<lparr>Misses := Misses (stats w2) + 1\<rparr>"
      by blast
    then show ?thesis
      using m w2 h(1) by (intro exI [of _ w'] exI [of _ x]) simp
  qed
  have trip: "\<exists>w'. Get w d = Return (nil, Some e, w') \<and> idleConns w' = [] \<and>
             heap w' = close_heap (heap w) post \<and>
             mset (conns w') = mset (conns w) - mset post \<and>
             stats w' = (stats w)\<lparr>Misses := Misses (stats w) + 1\<rparr> \<and>
             queue w' = queue w \<and> nextAddr w' = nextAddr w"
    if h: "pre = []" "cap32 w \<le> dialErrorsNum w" "lastDialError w = Some e" for e
  proof -
    from drops [of d] obtain w2 where w2:
      "Get w d = Get_loop w2 d" "idleConns w2 = pre" "stats w2 = stats w"
      "queue w2 = Suc (queue w)" "nextAddr w2 = nextAddr w"
      "heap w2 = close_heap (heap w) post" "mset (conns w2) = mset (conns w) - mset post"
      "opt w2 = opt w" "closed_flag w2 = closed_flag w" "dialErrorsNum w2 = dialErrorsNum w"
      "lastDialError w2 = lastDialError w"
      by blast
    have m: "Get w d = Get_miss w2 d"
      using w2(1,2) h(1) Get_loop_empty [of w2] by simp
    have "\<not> pool_closed w2" "cap32 w2 \<le> dialErrorsNum w2" "lastDialError w2 = Some e" "0 < queue w2"
      using closed2 [OF w2(9)] h(2,3) w2(4,8,10,11) by (simp_all add: cap32_def)
    from Get_miss_tripped [OF this, of d] show ?thesis
      using m w2 h(1) by auto
  qed
  show ?thesis
    using hit fail ok trip by blast
qed


theorem Get_pops_idle_LIFO_witness:
  "map_option idleConns (run_from (pool_options 3 0 10 0)
      [EGet (DialOK None), EGet (DialOK None), EPut 1, EPut 2, ETick 20]) = Some [1, 2] \<and>
   map_option (\<lambda>w. map (isStaleConn w) [1, 2]) (run_from (pool_options 3 0 10 0)
      [EGet (DialOK None), EGet (DialOK None), EPut 1, EPut 2, ETick 20])
     = Some [Return True, Return True] \<and>
   (\<exists>w'. Get (the (run_from (pool_options 3 0 10 0)
              [EGet (DialOK None), EGet (DialOK None), EPut 1, EPut 2, ETick 20])) (DialError 7)
           = Return (nil, Some (ExtError 7), w') \<and>
         idleConns w' = [] \<and> conns w' = [] \<and>
         map_option closed (heap w' 1) = Some True \<and> map_option closed (heap w' 2) = Some True \<and>
         Misses (stats w') = 3 \<and> Hits (stats w') = 0 \<and> queue w' = 0 \<and> nextAddr w' = 3) \<and>
   map_option idleConns (run_from (pool_options 3 0 10 0)
      [EGet (DialOK None), EGet (DialOK None), EPut 1, ETick 20, EPut 2]) = Some [1, 2] \<and>
   map_option (\<lambda>w. map (isStaleConn w) [1, 2]) (run_from (pool_options 3 0 10 0)
      [EGet (DialOK None), EGet (DialOK None), EPut 1, ETick 20, EPut 2])
     = Some [Return True, Return False] \<and>
   (\<exists>w'. Get (the (run_from (pool_options 3 0 10 0)
              [EGet (DialOK None), EGet (DialOK None), EPut 1, ETick 20, EPut 2])) (DialOK None)
           = Return (2, None, w') \<and>
         idleConns w' = [1] \<and> mset (conns w') = {#1, 2#} \<and>
         map_option closed (heap w' 1) = Some False \<and>
         Misses (stats w') = 2 \<and> Hits (stats w') = 1 \<and> queue w' = 1 \<and> nextAddr w' = 3)"
proof -
  let ?o = "pool_options 3 0 10 0"
  let ?r = "run_from ?o [EGet (DialOK None), EGet (DialOK None), EPut 1, EPut 2, ETick 20]"
  let ?h = "run_from ?o [EGet (DialOK None), EGet (DialOK None), EPut 1, ETick 20, EPut 2]"
  have r: "\<not> pool_closed (the ?r)" "queue (the ?r) < queue_cap (the ?r)"
    "idleConns (the ?r) = [] @ [1, 2]"
    "\<forall>x \<in> set [1, 2]. x \<noteq> nil \<and> heap (the ?r) x \<noteq> None \<and> isStaleConn (the ?r) x = Return True"
    "dialErrorsNum (the ?r) < cap32 (the ?r)"
    by code_simp+
  have r': "conns (the ?r) = [1, 2]" "queue (the ?r) = 0" "nextAddr (the ?r) = 3"
    "stats (the ?r) = \<lparr>Hits = 0, Misses = 2, Timeouts = 0, TotalConns = 0, IdleConns = 0, StaleConns = 0\<rparr>"
    "map_option closed (heap (the ?r) 1) = Some False" "map_option closed (heap (the ?r) 2) = Some False"
    "map_option idleConns ?r = Some [1, 2]"
    "map_option (\<lambda>w. map (isStaleConn w) [1, 2]) ?r = Some [Return True, Return True]"
    by code_simp+
  have h: "\<not> pool_closed (the ?h)" "queue (the ?h) < queue_cap (the ?h)"
    "idleConns (the ?h) = [1, 2] @ []"
    "\<forall>x \<in> set []. x \<noteq> nil \<and> heap (the ?h) x \<noteq> None \<and> isStaleConn (the ?h) x = Return True"
    "isStaleConn (the ?h) 2 = Return False"
    by code_simp+
  have h': "conns (the ?h) = [1, 2]" "queue (the ?h) = 0" "nextAddr (the ?h) = 3"
    "stats (the ?h) = \<lparr>Hits = 0, Misses = 2, Timeouts = 0, TotalConns = 0, IdleConns = 0, StaleConns = 0\<rparr>"
    "map_option closed (heap (the ?h) 1) = Some False"
    "map_option idleConns ?h = Some [1, 2]"
    "map_option (\<lambda>w. map (isStaleConn w) [1, 2]) ?h = Some [Return True, Return False]"
    by code_simp+
  note t1 = Get_pops_idle_LIFO [OF r(1-4), of "DialError 7"]
  note t2 = Get_pops_idle_LIFO [OF h(1-4), of "DialOK None"]
  from t1 r(5) obtain w1 where w1:
    "Get (the ?r) (DialError 7) = Return (nil, Some (ExtError 7), w1)" "idleConns w1 = []"
    "heap w1 = close_heap (heap (the ?r)) [1, 2]"
    "mset (conns w1) = mset (conns (the ?r)) - mset [1, 2]"
    "stats w1 = (stats (the ?r))\<lparr>Misses := Misses (stats (the ?r)) + 1\<rparr>"
    "queue w1 = queue (the ?r)" "nextAddr w1 = nextAddr (the ?r)"
    by blast
  have 1: "\<exists>w'. Get (the ?r) (DialError 7) = Return (nil, Some (ExtError 7), w') \<and>
         idleConns w' = [] \<and> conns w' = [] \<and>
         map_option closed (heap w' 1) = Some True \<and> map_option closed (heap w' 2) = Some True \<and>
         Misses (stats w') = 3 \<and> Hits (stats w') = 0 \<and> queue w' = 0 \<and> nextAddr w' = 3"
    using w1 r' by (intro exI [of _ w1]) (auto simp: close_heap_def)
  from t2 h(5) obtain w2 where w2:
    "Get (the ?h) (DialOK None) = Return (2, None, w2)" "idleConns w2 = [1]"
    "heap w2 = close_heap (heap (the ?h)) []"
    "mset (conns w2) = mset (conns (the ?h)) - mset []"
    "stats w2 = (stats (the ?h))\<lparr>Hits := Hits (stats (the ?h)) + 1\<rparr>"
    "queue w2 = Suc (queue (the ?h))" "nextAddr w2 = nextAddr (the ?h)"
    by force
  have 2: "\<exists>w'. Get (the ?h) (DialOK None) = Return (2, None, w') \<and>
         idleConns w' = [1] \<and> mset (conns w') = {#1, 2#} \<and>
         map_option closed (heap w' 1) = Some False \<and>
         Misses (stats w') = 2 \<and> Hits (stats w') = 1 \<and> queue w' = 1 \<and> nextAddr w' = 3"
    using w2 h' by (intro exI [of _ w2]) (auto simp: close_heap_def)
  show ?thesis
    using 1 2 r'(7,8) h'(6,7) by blast
qed

section \<open>Staleness\<close>

lemma time_Sub_ge:
  assumes "0 < T" and "T \<le> maxDuration"
  shows "(T \<le> time_Sub t u) = (T \<le> t - u)"
  using assms by (auto simp: time_Sub_def maxDuration_def minDuration_def)

text \<open>
  Claim C9. With an idle timeout that is zero or negative, \<^verbatim>\<open>isStaleConn\<close> answers false
  for every connection and every time (it does not even look at the connection). With a
  positive idle timeout (a \<^verbatim>\<open>time.Duration\<close>, so at most \<open>maxDuration\<close>) it answers
  true exactly when the time now minus the connection's last-used time is at least the
  idle timeout; the saturation of \<^verbatim>\<open>Sub\<close> does not change the answer.
\<close>

theorem isStaleConn_iff:
  "(IdleTimeout (opt tp) \<le> 0 \<longrightarrow> isStaleConn tp cn = Return False) \<and>
   (0 < IdleTimeout (opt tp) \<and> IdleTimeout (opt tp) \<le> maxDuration \<and> heap tp cn = Some c \<longrightarrow>
      isStaleConn tp cn = Return (IdleTimeout (opt tp) \<le> clock tp - usedTime c))"
  by (auto simp: isStaleConn_def time_Sub_ge)

theorem isStaleConn_iff_witness:
  "IdleTimeout (opt (the (run_from (pool_options 2 0 (- 1) 1) [EGet (DialOK None), ETick 7]))) \<le> 0 \<and>
   isStaleConn (the (run_from (pool_options 2 0 (- 1) 1) [EGet (DialOK None), ETick 7])) 1 = Return False \<and>
   0 < IdleTimeout (opt (the (run_from (pool_options 2 0 5 1) [EGet (DialOK None), ETick 7]))) \<and>
   clock (the (run_from (pool_options 2 0 5 1) [EGet (DialOK None), ETick 7])) = 7 \<and>
   isStaleConn (the (run_from (pool_options 2 0 5 1) [EGet (DialOK None), ETick 7])) 1 = Return True \<and>
   isStaleConn (the (run_from (pool_options 2 0 5 1) [EGet (DialOK None), ETick 4])) 1 = Return False"
proof -
  let ?c = "\<lparr>Endpoint = ''127.0.0.1:9898'', closed = False, socket = None, usedTime = 0,
             createTime = 0, pooled = True\<rparr>"
  let ?a = "the (run_from (pool_options 2 0 (- 1) 1) [EGet (DialOK None), ETick 7])"
  let ?b = "the (run_from (pool_options 2 0 5 1) [EGet (DialOK None), ETick 7])"
  let ?b' = "the (run_from (pool_options 2 0 5 1) [EGet (DialOK None), ETick 4])"
  have a: "IdleTimeout (opt ?a) \<le> 0"
    by code_simp
  have b: "0 < IdleTimeout (opt ?b)" "IdleTimeout (opt ?b) \<le> maxDuration" "heap ?b 1 = Some ?c"
    "IdleTimeout (opt ?b) = 5" "clock ?b = 7"
    by code_simp+
  have b': "0 < IdleTimeout (opt ?b')" "IdleTimeout (opt ?b') \<le> maxDuration" "heap ?b' 1 = Some ?c"
    "IdleTimeout (opt ?b') = 5" "clock ?b' = 4"
    by code_simp+
  have "isStaleConn ?a 1 = Return False"
    using isStaleConn_iff [of ?a 1] a by blast
  moreover have "isStaleConn ?b 1 = Return (IdleTimeout (opt ?b) \<le> clock ?b - usedTime ?c)"
    using isStaleConn_iff [of ?b 1 ?c] b(1-3) by blast
  moreover have "isStaleConn ?b' 1 = Return (IdleTimeout (opt ?b') \<le> clock ?b' - usedTime ?c)"
    using isStaleConn_iff [of ?b' 1 ?c] b'(1-3) by blast
  ultimately show ?thesis
    using a b b' by simp
qed

end
